theory Spec2Isabelle
  imports Main
begin

unbundle bit_operations_syntax

section \<open>The URL pattern (URLFinder.cpp, findURLs)\<close>

text \<open>
  The scan matches each visible line against one fixed regular expression,
  \<^verbatim>\<open>\bhttps?://[-a-zA-Z0-9@:%._\+~#=]{1,256}\.[a-zA-Z0-9()]{1,6}\b(?:[-a-zA-Z0-9()@:%_\+.~#?&\/=]*)\<close>,
  with \<open>QRegExp::indexIn\<close> followed by \<open>QRegExp::capturedTexts\<close>.
  Text is a list of bytes; the model covers lines in which a character is one byte
  (ASCII), so that offsets in the line and in the buffer agree. A word character is a
  letter, a digit or the underscore.
\<close>

definition isAlnum :: "char \<Rightarrow> bool" where
  "isAlnum c = (let n = (of_char c :: nat) in
      (48 \<le> n \<and> n \<le> 57) \<or> (65 \<le> n \<and> n \<le> 90) \<or> (97 \<le> n \<and> n \<le> 122))"

definition isWord :: "char \<Rightarrow> bool" where
  "isWord c = (isAlnum c \<or> c = CHR ''_'')"

text \<open>The three character classes of the pattern, in the order in which they occur.\<close>

definition hostChar :: "char \<Rightarrow> bool" where
  "hostChar c = (isAlnum c \<or> c \<in> set ''-@:%._+~#='')"

definition tldChar :: "char \<Rightarrow> bool" where
  "tldChar c = (isAlnum c \<or> c \<in> set ''()'')"

definition pathChar :: "char \<Rightarrow> bool" where
  "pathChar c = (isAlnum c \<or> c \<in> set ''-()@:%_+.~#?&/='')"

text \<open>
  The pieces the pattern is built from: the assertion \<^verbatim>\<open>\b\<close>, a literal string, an
  optional character, and a character class repeated between a lower and an optional
  upper bound.
\<close>

datatype rx = WordBoundary | Lit string | Opt char | Rep "char \<Rightarrow> bool" nat "nat option"

definition urlRegex :: "rx list" where
  "urlRegex = [WordBoundary, Lit ''http'', Opt CHR ''s'', Lit ''://'',
     Rep hostChar 1 (Some 256), Lit ''.'', Rep tldChar 1 (Some 6), WordBoundary,
     Rep pathChar 0 None]"

definition atWordBoundary :: "string \<Rightarrow> nat \<Rightarrow> bool" where
  "atWordBoundary s i =
     ((0 < i \<and> i \<le> length s \<and> isWord (s ! (i - 1))) \<noteq> (i < length s \<and> isWord (s ! i)))"

text \<open>
  All the positions at which a piece, and a sequence of pieces, can end when it starts at
  position \<open>i\<close> of \<open>s\<close>.
\<close>

fun atomEnds :: "rx \<Rightarrow> string \<Rightarrow> nat \<Rightarrow> nat list" where
  "atomEnds WordBoundary s i = (if atWordBoundary s i then [i] else [])"
| "atomEnds (Lit t) s i = (if take (length t) (drop i s) = t then [i + length t] else [])"
| "atomEnds (Opt c) s i = (if i < length s \<and> s ! i = c then [i, i + 1] else [i])"
| "atomEnds (Rep cls lo hi) s i =
     (let run = length (takeWhile cls (drop i s));
          top = (case hi of None \<Rightarrow> run | Some h \<Rightarrow> min h run)
      in map (\<lambda>k. i + k) [lo ..< Suc top])"

fun seqEnds :: "rx list \<Rightarrow> string \<Rightarrow> nat \<Rightarrow> nat list" where
  "seqEnds [] s i = [i]"
| "seqEnds (r # rs) s i = concat (map (seqEnds rs s) (atomEnds r s i))"

text \<open>
  \<open>QRegExp\<close> reports, at the first position where the pattern matches at all, the
  longest match from there. \<open>matchHere\<close> is the length of that match at position
  \<open>i\<close>, and \<open>indexInFrom\<close> tries the positions from \<open>i\<close> to the end of the string.
\<close>

definition matchHere :: "rx list \<Rightarrow> string \<Rightarrow> nat \<Rightarrow> nat option" where
  "matchHere re s i = (case seqEnds re s i of [] \<Rightarrow> None | e # es \<Rightarrow> Some (fold max es e - i))"

function indexInFrom :: "rx list \<Rightarrow> string \<Rightarrow> nat \<Rightarrow> (nat \<times> nat) option" where
  "indexInFrom re s i =
     (if length s < i then None
      else case matchHere re s i of
             Some n \<Rightarrow> Some (i, n)
           | None \<Rightarrow> indexInFrom re s (Suc i))"
  by pat_completeness auto
termination
  by (relation "measure (\<lambda>(re, s, i). Suc (length s) - i)") auto

declare indexInFrom.simps [simp del]

text \<open>
  \<open>capturedTexts\<close> after \<open>indexIn\<close>: the text of the whole match followed by the texts
  of the capturing groups. The pattern has no capturing group (its only group is
  \<^verbatim>\<open>(?:...)\<close>), so the list has one element, which is empty when nothing matched.
\<close>

definition capturedTexts :: "rx list \<Rightarrow> string \<Rightarrow> string list" where
  "capturedTexts re s =
     (case indexInFrom re s 0 of
        None \<Rightarrow> [[]]
      | Some (i, n) \<Rightarrow> [take n (drop i s)])"

text \<open>Lines 70 to 73: \<open>indexIn\<close>, \<open>capturedTexts\<close>, \<open>removeDuplicates\<close>, \<open>removeAll("")\<close>.\<close>

definition matchedTexts :: "string \<Rightarrow> string list" where
  "matchedTexts lineText = removeAll [] (remdups (capturedTexts urlRegex lineText))"

section \<open>The editor as the decorator reads it\<close>

text \<open>
  \<open>findURLs\<close> and \<open>notify\<close> reach the document only through methods of the editor
  widget, which are not part of these sources. The buffer is modelled by its bytes; the
  line geometry, the folding and wrapping state, the viewport and the indicator queries
  used by a click are the answers the editor gives, one field for each method.
  \<open>lastChild line\<close> stands for \<open>lastChild(line, -1)\<close>.
\<close>

record editor =
  buffer :: string
  lineCount :: int
  positionFromLine :: "int \<Rightarrow> int"
  lineEndPosition :: "int \<Rightarrow> int"
  lineVisible :: "int \<Rightarrow> bool"
  wrapCount :: "int \<Rightarrow> int"
  foldLevel :: "int \<Rightarrow> int"
  foldExpanded :: "int \<Rightarrow> bool"
  lastChild :: "int \<Rightarrow> int"
  firstVisibleLine :: int
  docLineFromVisible :: "int \<Rightarrow> int"
  linesOnScreen :: int
  indicatorAllOnFor :: "int \<Rightarrow> int"
  indicatorStart :: "nat \<Rightarrow> int \<Rightarrow> int"
  indicatorEnd :: "nat \<Rightarrow> int \<Rightarrow> int"

definition editorLength :: "editor \<Rightarrow> int" where
  "editorLength e = int (length (buffer e))"

text \<open>\<open>charAt\<close> answers the NUL character outside the document.\<close>

definition charAt :: "editor \<Rightarrow> int \<Rightarrow> char" where
  "charAt e pos = (if 0 \<le> pos \<and> pos < editorLength e then buffer e ! nat pos else CHR 0x00)"

definition get_text_range :: "editor \<Rightarrow> int \<Rightarrow> int \<Rightarrow> string" where
  "get_text_range e startPos endPos = take (nat (endPos - startPos)) (drop (nat startPos) (buffer e))"

text \<open>
  \<open>findText\<close> with the flag \<open>SCFIND_MATCHCASE\<close>: the first position at or after
  \<open>cpMin\<close> where the text stands in the buffer and ends at or before \<open>cpMax\<close>. The
  result is the pair of the start and the end of the occurrence, and \<open>(-1, cpMax)\<close> when
  there is none. The scan calls it with \<open>cpMin \<le> cpMax\<close> (a position inside a line
  and the end of that line); a search backwards, which the editor does when
  \<open>cpMax < cpMin\<close>, is not modelled.
\<close>

function searchForward :: "string \<Rightarrow> string \<Rightarrow> nat \<Rightarrow> nat \<Rightarrow> nat option" where
  "searchForward buf needle p hi =
     (if hi < p + length needle \<or> length buf < p + length needle then None
      else if take (length needle) (drop p buf) = needle then Some p
      else searchForward buf needle (Suc p) hi)"
  by pat_completeness auto
termination
  by (relation "measure (\<lambda>(buf, needle, p, hi). Suc hi - p)") auto

declare searchForward.simps [simp del]

definition findText :: "editor \<Rightarrow> string \<Rightarrow> int \<Rightarrow> int \<Rightarrow> int \<times> int" where
  "findText e needle cpMin cpMax =
     (case searchForward (buffer e) needle (nat cpMin) (nat cpMax) of
        None \<Rightarrow> (- 1, cpMax)
      | Some p \<Rightarrow> (int p, int p + int (length needle)))"

subsection \<open>Indicators\<close>

text \<open>
  What the scan writes: the current indicator and, for each indicator, the set of buffer
  offsets that carry it. Filling and clearing a range act on the current indicator and
  leave the state alone when the range is empty or does not lie inside the document.
\<close>

record indicators =
  indicatorCurrent :: nat
  indicatorRanges :: "nat \<Rightarrow> int set"

definition setIndicatorCurrent :: "nat \<Rightarrow> indicators \<Rightarrow> indicators" where
  "setIndicatorCurrent i st = st\<lparr>indicatorCurrent := i\<rparr>"

definition validRange :: "editor \<Rightarrow> int \<Rightarrow> int \<Rightarrow> bool" where
  "validRange e pos len = (0 < len \<and> 0 \<le> pos \<and> pos + len \<le> editorLength e)"

definition indicatorClearRange :: "editor \<Rightarrow> int \<Rightarrow> int \<Rightarrow> indicators \<Rightarrow> indicators" where
  "indicatorClearRange e pos len st =
     (if validRange e pos len
      then st\<lparr>indicatorRanges := (indicatorRanges st)
             (indicatorCurrent st := indicatorRanges st (indicatorCurrent st) - {pos ..< pos + len})\<rparr>
      else st)"

definition indicatorFillRange :: "editor \<Rightarrow> int \<Rightarrow> int \<Rightarrow> indicators \<Rightarrow> indicators" where
  "indicatorFillRange e pos len st =
     (if validRange e pos len
      then st\<lparr>indicatorRanges := (indicatorRanges st)
             (indicatorCurrent st := indicatorRanges st (indicatorCurrent st) \<union> {pos ..< pos + len})\<rparr>
      else st)"

section \<open>The scan (URLFinder::findURLs)\<close>

text \<open>Lines 88 to 91: the four pairs of an opening and a closing character.\<close>

definition bracketed :: "char \<Rightarrow> char \<Rightarrow> bool" where
  "bracketed prevChar nextChar =
     ((prevChar = CHR ''('' \<and> nextChar = CHR '')'') \<or>
      (prevChar = CHR ''['' \<and> nextChar = CHR '']'') \<or>
      (prevChar = CHR ''<'' \<and> nextChar = CHR ''>'') \<or>
      (prevChar = CHR 0x22 \<and> nextChar = CHR 0x22))"

text \<open>Lines 81 to 96: what is done with one result \<open>pos\<close> of \<open>findText\<close>.\<close>

definition markOccurrence :: "editor \<Rightarrow> int \<times> int \<Rightarrow> indicators \<Rightarrow> indicators" where
  "markOccurrence e pos st =
     (let startUrl = fst pos; endUrl = snd pos in
      if startUrl > 0 then
        let prevChar = charAt e (startUrl - 1);
            nextChar = charAt e (endUrl - 1);
            endUrl = (if bracketed prevChar nextChar then endUrl - 1 else endUrl)
        in indicatorFillRange e startUrl (endUrl - startUrl) st
      else st)"

text \<open>
  Lines 76 to 97, the \<open>do ... while\<close> loop for one matched text: search from
  \<open>searchFrom\<close>, handle the result, and search again from the end of the occurrence
  until the search fails. The loop need not end for every text (an empty text is found
  at the same place again and again), so the result is an option.
\<close>

partial_function (option) annotate ::
  "editor \<Rightarrow> string \<Rightarrow> int \<Rightarrow> int \<Rightarrow> indicators \<Rightarrow> indicators option" where
  "annotate e matchedText searchFrom endPos st =
     (let pos = findText e matchedText searchFrom endPos;
          st' = markOccurrence e pos st
      in if fst pos \<noteq> - 1 then annotate e matchedText (snd pos) endPos st' else Some st')"

text \<open>Line 75: the loop over the matched texts of a line.\<close>

fun annotateAll ::
  "editor \<Rightarrow> string list \<Rightarrow> int \<Rightarrow> int \<Rightarrow> indicators \<Rightarrow> indicators option" where
  "annotateAll e [] startPos endPos st = Some st"
| "annotateAll e (t # ts) startPos endPos st =
     (case annotate e t startPos endPos st of
        None \<Rightarrow> None
      | Some st' \<Rightarrow> annotateAll e ts startPos endPos st')"

text \<open>Lines 65 to 98: one visible line.\<close>

definition scanLine :: "editor \<Rightarrow> int \<Rightarrow> indicators \<Rightarrow> indicators option" where
  "scanLine e currentLine st =
     (let startPos = positionFromLine e currentLine;
          endPos = lineEndPosition e currentLine;
          lineText = get_text_range e startPos endPos
      in annotateAll e (matchedTexts lineText) startPos endPos st)"

definition SC_FOLDLEVELHEADERFLAG :: int where
  "SC_FOLDLEVELHEADERFLAG = 0x2000"

text \<open>Line 104: the line is a fold header and its fold is not expanded.\<close>

definition collapsedHeader :: "editor \<Rightarrow> int \<Rightarrow> bool" where
  "collapsedHeader e line =
     ((foldLevel e line AND SC_FOLDLEVELHEADERFLAG) = SC_FOLDLEVELHEADERFLAG
      \<and> \<not> foldExpanded e line)"

text \<open>
  Lines 58 to 110, the \<open>while\<close> loop over the lines. Besides the indicators the model
  carries the list of the lines whose text the loop has scanned, in order; the source has
  no such list, it is kept to state which lines the loop enumerates. The loop ends only
  if the line number grows, which depends on what \<open>lastChild\<close> answers, so the result
  is an option.
\<close>

partial_function (option) scanLoop ::
  "editor \<Rightarrow> int \<Rightarrow> int \<Rightarrow> int list \<times> indicators \<Rightarrow> (int list \<times> indicators) option" where
  "scanLoop e currentLine linesLeftToProcess acc =
     (if linesLeftToProcess \<ge> 0 \<and> currentLine < lineCount e then
        if \<not> lineVisible e currentLine
        then scanLoop e (currentLine + 1) linesLeftToProcess acc
        else
          case scanLine e currentLine (snd acc) of
            None \<Rightarrow> None
          | Some st' \<Rightarrow>
              scanLoop e
                (if collapsedHeader e currentLine then lastChild e currentLine + 1
                 else currentLine + 1)
                (linesLeftToProcess - wrapCount e currentLine)
                (fst acc @ [currentLine], st')
      else Some acc)"

text \<open>
  Lines 48 to 111. \<open>indicator\<close> is the number the constructor got from
  \<open>allocateIndicator\<close>.
\<close>

definition findURLs :: "nat \<Rightarrow> editor \<Rightarrow> indicators \<Rightarrow> (int list \<times> indicators) option" where
  "findURLs indicator e st =
     (let st = setIndicatorCurrent indicator st;
          st = indicatorClearRange e 0 (editorLength e) st;
          currentLine = docLineFromVisible e (firstVisibleLine e);
          linesLeftToProcess = linesOnScreen e
      in scanLoop e currentLine linesLeftToProcess ([], st))"

section \<open>Notifications (URLFinder::notify) and the timer\<close>

text \<open>
  A notification as far as \<open>notify\<close> reads it. The codes and the flag values are
  Scintilla's; \<open>FlagSet value flag\<close> tests that all bits of \<open>flag\<close> are set in
  \<open>value\<close> (each flag used here is a single bit).
\<close>

datatype notification_code = UpdateUI | Modified | Zoom | IndicatorClick | OtherNotification

record notification =
  code :: notification_code
  updated :: int
  modificationType :: int
  modifiers :: int
  position :: int

definition FlagSet :: "int \<Rightarrow> int \<Rightarrow> bool" where
  "FlagSet v flag = (v AND flag = flag)"

definition SC_UPDATE_V_SCROLL :: int where
  "SC_UPDATE_V_SCROLL = 0x4"

definition SC_MOD_INSERTTEXT :: int where
  "SC_MOD_INSERTTEXT = 0x1"

definition SC_MOD_DELETETEXT :: int where
  "SC_MOD_DELETETEXT = 0x2"

definition SCMOD_CTRL :: int where
  "SCMOD_CTRL = 2"

text \<open>
  \<open>QUrl\<close> is a class of the Qt library. What it makes of a text is a parameter of
  \<open>notify\<close>: a function from the text to the answers of \<open>isValid()\<close> and
  \<open>errorString()\<close>.
\<close>

record qurl =
  isValid :: bool
  errorString :: string

text \<open>
  What \<open>notify\<close> does besides reading the editor: it starts the timer, writes a line to
  the log (the text of the range at a click that is followed, the error string of the URL
  at one that is not), or hands the URL made from a text to
  \<open>QDesktopServices::openUrl\<close>.
\<close>

datatype action = TimerStart | LogInfo string | LogWarning string | OpenUrl string

definition notify :: "nat \<Rightarrow> (string \<Rightarrow> qurl) \<Rightarrow> editor \<Rightarrow> notification \<Rightarrow> action list" where
  "notify indicator QUrl e pscn =
     (if code pscn = UpdateUI then
        (if FlagSet (updated pscn) SC_UPDATE_V_SCROLL then [TimerStart] else [])
      else if code pscn = Modified then
        (if FlagSet (modificationType pscn) SC_MOD_INSERTTEXT
            \<or> FlagSet (modificationType pscn) SC_MOD_DELETETEXT
         then [TimerStart] else [])
      else if code pscn = Zoom then [TimerStart]
      else if code pscn = IndicatorClick \<and> FlagSet (modifiers pscn) SCMOD_CTRL then
        (let indicators = indicatorAllOnFor e (position pscn) in
         if indicators AND push_bit indicator 1 \<noteq> 0 then
           (let indicatorStart = indicatorStart e indicator (position pscn);
                indicatorEnd = indicatorEnd e indicator (position pscn);
                urlText = get_text_range e indicatorStart indicatorEnd;
                url = QUrl urlText
            in if isValid url then [LogInfo urlText, OpenUrl urlText]
               else [LogWarning (errorString url)])
         else [])
      else [])"

text \<open>
  Modelled from the spec: the timer. \<open>QTimer\<close> is a class of the Qt library, which
  these sources use and do not contain. As in the state machine of the specification, a
  timer is idle or pending with a deadline; time is counted in milliseconds.
  \<open>QTimer::start\<close> starts the timer or, if it is pending, restarts it: the deadline
  becomes the current time plus the interval. When the event loop finds the deadline
  reached, the timer times out: a single-shot timer becomes idle, and the slot connected
  to the signal, \<open>findURLs\<close>, runs once; \<open>scans\<close> counts these runs.
  \<open>URLFinder_init\<close> is the state the constructor leaves (lines 43 to 45).
\<close>

record qtimer =
  interval :: nat
  singleShot :: bool
  deadline :: "nat option"

definition timer_start :: "nat \<Rightarrow> qtimer \<Rightarrow> qtimer" where
  "timer_start now t = t\<lparr>deadline := Some (now + interval t)\<rparr>"

record scheduler =
  timer :: qtimer
  scans :: nat

definition URLFinder_init :: scheduler where
  "URLFinder_init = \<lparr>timer = \<lparr>interval = 200, singleShot = True, deadline = None\<rparr>, scans = 0\<rparr>"

definition timeout :: "nat \<Rightarrow> scheduler \<Rightarrow> scheduler" where
  "timeout now s =
     (case deadline (timer s) of
        None \<Rightarrow> s
      | Some d \<Rightarrow>
          if d \<le> now
          then s\<lparr>timer := (timer s)\<lparr>deadline :=
                     (if singleShot (timer s) then None else Some (d + interval (timer s)))\<rparr>,
                 scans := Suc (scans s)\<rparr>
          else s)"

text \<open>
  The events that reach the decorator: the signal \<open>resized\<close>, connected to
  \<open>QTimer::start\<close> on line 41, and the notifications, handled by \<open>notify\<close>. An event
  arrives at a time; the event loop lets the timer time out first if its deadline has
  been reached by then.
\<close>

datatype event = Resized | Notification notification

fun perform :: "nat \<Rightarrow> action \<Rightarrow> scheduler \<Rightarrow> scheduler" where
  "perform now TimerStart s = s\<lparr>timer := timer_start now (timer s)\<rparr>"
| "perform now (LogInfo m) s = s"
| "perform now (LogWarning m) s = s"
| "perform now (OpenUrl u) s = s"

definition deliver ::
  "nat \<Rightarrow> (string \<Rightarrow> qurl) \<Rightarrow> editor \<Rightarrow> nat \<Rightarrow> event \<Rightarrow> scheduler \<Rightarrow> scheduler" where
  "deliver indicator QUrl e now ev s =
     (case ev of
        Resized \<Rightarrow> s\<lparr>timer := timer_start now (timer s)\<rparr>
      | Notification pscn \<Rightarrow> fold (perform now) (notify indicator QUrl e pscn) s)"

fun run ::
  "nat \<Rightarrow> (string \<Rightarrow> qurl) \<Rightarrow> editor \<Rightarrow> (nat \<times> event) list \<Rightarrow> scheduler \<Rightarrow> scheduler" where
  "run indicator QUrl e [] s = s"
| "run indicator QUrl e ((now, ev) # evs) s =
     run indicator QUrl e evs (deliver indicator QUrl e now ev (timeout now s))"

text \<open>
  The five triggers the specification names: a resize, a vertical scroll, a change of the
  zoom level, an insertion and a deletion of text. \<open>burst window t0 evs\<close> says that
  the events are triggers and that each comes less than \<open>window\<close> milliseconds after
  the one before it, the first after \<open>t0\<close>.
\<close>

definition trigger :: "event \<Rightarrow> bool" where
  "trigger ev =
     (case ev of
        Resized \<Rightarrow> True
      | Notification pscn \<Rightarrow>
          (code pscn = UpdateUI \<and> FlagSet (updated pscn) SC_UPDATE_V_SCROLL)
          \<or> (code pscn = Modified \<and> (FlagSet (modificationType pscn) SC_MOD_INSERTTEXT
                \<or> FlagSet (modificationType pscn) SC_MOD_DELETETEXT))
          \<or> code pscn = Zoom)"

fun burst :: "nat \<Rightarrow> nat \<Rightarrow> (nat \<times> event) list \<Rightarrow> bool" where
  "burst window t0 [] = True"
| "burst window t0 ((t, ev) # evs) = (t0 \<le> t \<and> t < t0 + window \<and> trigger ev \<and> burst window t evs)"

section \<open>Language detection (NotepadNextApplication.cpp)\<close>

text \<open>
  What \<open>detectLanguage\<close> reads of a document: whether it is backed by a file
  (\<open>editor->isFile()\<close>), the suffix of that file (\<open>getFileInfo().suffix()\<close>), and the
  bytes of the buffer.
\<close>

record document =
  isFile :: bool
  suffix :: string
  contents :: string

text \<open>
  The Lua table \<open>languages\<close>, as the list of its entries in the order in which
  \<open>pairs\<close> visits them; the field \<open>extensions\<close> of an entry may be absent.
\<close>

type_synonym language_table = "(string \<times> string list option) list"

fun detectLanguageFromExtension :: "language_table \<Rightarrow> string \<Rightarrow> string" where
  "detectLanguageFromExtension [] ext = ''Text''"
| "detectLanguageFromExtension ((name, L) # rest) ext =
     (case L of
        None \<Rightarrow> detectLanguageFromExtension rest ext
      | Some extensions \<Rightarrow>
          if ext \<in> set extensions then name else detectLanguageFromExtension rest ext)"

text \<open>
  The Lua function \<open>detectLanguageFromContents\<close> that classifies the sampled text is
  defined by a script outside these sources; it is the parameter \<open>sniff\<close>.
\<close>

definition detectLanguageFromContents :: "(string \<Rightarrow> string) \<Rightarrow> document \<Rightarrow> string" where
  "detectLanguageFromContents sniff doc =
     (if length (contents doc) > 0
      then sniff (take (min 64 (length (contents doc))) (contents doc))
      else ''Text'')"

definition detectLanguage :: "language_table \<Rightarrow> (string \<Rightarrow> string) \<Rightarrow> document \<Rightarrow> string" where
  "detectLanguage langs sniff doc =
     (let language_name = ''Text'';
          language_name = (if isFile doc
                           then detectLanguageFromExtension langs (suffix doc)
                           else language_name);
          language_name = (if language_name = ''Text''
                           then detectLanguageFromContents sniff doc
                           else language_name)
      in language_name)"

section \<open>Auxiliary definitions\<close>

text \<open>
  Every operation of the scan adds a set of offsets to the ranges of the current
  indicator. \<open>markSet\<close> is the set one search result adds; \<open>annotFills\<close>,
  \<open>lineFills\<close> and \<open>scanFills\<close> are the sets the loops add, and \<open>scanTrace\<close> is the
  list of lines the outer loop scans, all read off a run that starts with no indicator
  set. They are used to state and prove properties, not to compute.
\<close>

definition addRanges :: "int set \<Rightarrow> indicators \<Rightarrow> indicators" where
  "addRanges F st =
     st\<lparr>indicatorRanges := (indicatorRanges st)
          (indicatorCurrent st := indicatorRanges st (indicatorCurrent st) \<union> F)\<rparr>"

definition markSet :: "editor \<Rightarrow> int \<times> int \<Rightarrow> int set" where
  "markSet e pos =
     (if fst pos > 0 then
        let endUrl = (if bracketed (charAt e (fst pos - 1)) (charAt e (snd pos - 1))
                      then snd pos - 1 else snd pos)
        in if validRange e (fst pos) (endUrl - fst pos) then {fst pos ..< endUrl} else {}
      else {})"

definition noIndicators :: indicators where
  "noIndicators = \<lparr>indicatorCurrent = 0, indicatorRanges = (\<lambda>i. {})\<rparr>"

definition annotFills :: "editor \<Rightarrow> string \<Rightarrow> int \<Rightarrow> int \<Rightarrow> int set" where
  "annotFills e needle f E =
     (case annotate e needle f E noIndicators of
        None \<Rightarrow> {}
      | Some s \<Rightarrow> indicatorRanges s 0)"

definition lineFills :: "editor \<Rightarrow> int \<Rightarrow> int set" where
  "lineFills e line =
     (\<Union>t\<in>set (matchedTexts (get_text_range e (positionFromLine e line) (lineEndPosition e line))).
        annotFills e t (positionFromLine e line) (lineEndPosition e line))"

definition nextLine :: "editor \<Rightarrow> int \<Rightarrow> int" where
  "nextLine e line = (if collapsedHeader e line then lastChild e line + 1 else line + 1)"

definition scanTrace :: "editor \<Rightarrow> int \<Rightarrow> int \<Rightarrow> int list" where
  "scanTrace e l b = (case scanLoop e l b ([], noIndicators) of None \<Rightarrow> [] | Some r \<Rightarrow> fst r)"

definition scanFills :: "editor \<Rightarrow> int \<Rightarrow> int \<Rightarrow> int set" where
  "scanFills e l b =
     (case scanLoop e l b ([], noIndicators) of None \<Rightarrow> {} | Some r \<Rightarrow> indicatorRanges (snd r) 0)"

text \<open>
  The editor never places the last child of a line before the line itself. The outer
  loop of the scan ends for every editor that keeps to this.
\<close>

definition lastChild_ok :: "editor \<Rightarrow> bool" where
  "lastChild_ok e = (\<forall>line. line \<le> lastChild e line)"

text \<open>
  The text \<open>needle\<close> stands at offset \<open>p\<close> of the buffer; the offsets between
  \<open>f\<close> and \<open>E\<close> where it stands and ends at or before \<open>E\<close>.
\<close>

definition occursAt :: "editor \<Rightarrow> string \<Rightarrow> int \<Rightarrow> bool" where
  "occursAt e needle p =
     (0 \<le> p \<and> nat p + length needle \<le> length (buffer e)
      \<and> take (length needle) (drop (nat p) (buffer e)) = needle)"

definition occurrencePositions :: "editor \<Rightarrow> string \<Rightarrow> int \<Rightarrow> int \<Rightarrow> int list" where
  "occurrencePositions e needle f E =
     filter (occursAt e needle) [max 0 f .. E - int (length needle)]"

definition highlighted :: "nat \<Rightarrow> (int list \<times> indicators) option \<Rightarrow> int set option" where
  "highlighted indicator r = map_option (\<lambda>x. indicatorRanges (snd x) indicator) r"

subsection \<open>Example inputs\<close>

text \<open>
  A document of one line, all of it visible, unfolded and unwrapped, in a viewport of
  \<open>rows\<close> complete lines.
\<close>

definition oneLineEditor :: "string \<Rightarrow> int \<Rightarrow> editor" where
  "oneLineEditor s rows =
     \<lparr>buffer = s, lineCount = 1, positionFromLine = (\<lambda>l. 0),
      lineEndPosition = (\<lambda>l. int (length s)), lineVisible = (\<lambda>l. True),
      wrapCount = (\<lambda>l. 1), foldLevel = (\<lambda>l. 0x400), foldExpanded = (\<lambda>l. True),
      lastChild = (\<lambda>l. l), firstVisibleLine = 0, docLineFromVisible = (\<lambda>l. l),
      linesOnScreen = rows, indicatorAllOnFor = (\<lambda>p. 0),
      indicatorStart = (\<lambda>i p. 0), indicatorEnd = (\<lambda>i p. 0)\<rparr>"

text \<open>
  Thirteen empty lines, 0 to 12. Line 5 is the header of a collapsed fold whose last
  child is line 10, so lines 6 to 10 are hidden; the viewport starts at line 5 and shows
  three lines.
\<close>

definition foldedEditor :: editor where
  "foldedEditor =
     \<lparr>buffer = replicate 12 CHR 0x0A, lineCount = 13, positionFromLine = (\<lambda>l. l),
      lineEndPosition = (\<lambda>l. l), lineVisible = (\<lambda>l. \<not> (6 \<le> l \<and> l \<le> 10)),
      wrapCount = (\<lambda>l. 1),
      foldLevel = (\<lambda>l. if l = 5 then 0x2400 else if 6 \<le> l \<and> l \<le> 10 then 0x401 else 0x400),
      foldExpanded = (\<lambda>l. l \<noteq> 5),
      lastChild = (\<lambda>l. if l = 5 then 10 else l), firstVisibleLine = 5,
      docLineFromVisible = (\<lambda>l. if l \<le> 5 then l else l + 5),
      linesOnScreen = 3, indicatorAllOnFor = (\<lambda>p. 0),
      indicatorStart = (\<lambda>i p. 0), indicatorEnd = (\<lambda>i p. 0)\<rparr>"

text \<open>
  The line \<open>'' http://a.io''\<close> after a scan with indicator 8: the offsets 1 to 11
  carry the indicator. \<open>click mods\<close> is a click at offset 3 with the modifier keys
  \<open>mods\<close>.
\<close>

definition linkEditor :: editor where
  "linkEditor = (oneLineEditor '' http://a.io'' 10)
     \<lparr>indicatorAllOnFor := (\<lambda>p. if 1 \<le> p \<and> p < 12 then 0x100 else 0),
      indicatorStart := (\<lambda>i p. 1), indicatorEnd := (\<lambda>i p. 12)\<rparr>"

definition click :: "int \<Rightarrow> notification" where
  "click mods = \<lparr>code = IndicatorClick, updated = 0, modificationType = 0, modifiers = mods, position = 3\<rparr>"

text \<open>Two answers of \<open>QUrl\<close>: every text is a valid URL, and no text is.\<close>

definition acceptAll :: "string \<Rightarrow> qurl" where
  "acceptAll t = \<lparr>isValid = True, errorString = []\<rparr>"

definition rejectAll :: "string \<Rightarrow> qurl" where
  "rejectAll t = \<lparr>isValid = False, errorString = ''Invalid URL''\<rparr>"

definition zoomed :: notification where
  "zoomed = \<lparr>code = Zoom, updated = 0, modificationType = 0, modifiers = 0, position = 0\<rparr>"

definition inserted :: notification where
  "inserted = \<lparr>code = Modified, updated = 0, modificationType = 0x11, modifiers = 0, position = 0\<rparr>"

section \<open>Lemmas about the scan\<close>

lemma addRanges_empty [simp]: "addRanges {} st = st"
  by (simp add: addRanges_def)

lemma addRanges_twice [simp]: "addRanges G (addRanges F st) = addRanges (F \<union> G) st"
  by (simp add: addRanges_def Un_assoc)

lemma addRanges_current [simp]: "indicatorCurrent (addRanges F st) = indicatorCurrent st"
  by (simp add: addRanges_def)

lemma addRanges_ranges:
  "indicatorRanges (addRanges F st) i =
     (if i = indicatorCurrent st then indicatorRanges st i \<union> F else indicatorRanges st i)"
  by (simp add: addRanges_def)

lemma markOccurrence_addRanges: "markOccurrence e pos st = addRanges (markSet e pos) st"
  by (simp add: markOccurrence_def markSet_def indicatorFillRange_def addRanges_def Let_def)

lemma markSet_no_zero: "0 \<notin> markSet e pos"
  by (simp add: markSet_def Let_def)

lemma searchForward_Some:
  "searchForward buf needle p hi = Some q \<Longrightarrow>
     p \<le> q \<and> q + length needle \<le> hi \<and> q + length needle \<le> length buf
     \<and> take (length needle) (drop q buf) = needle"
proof (induction buf needle p hi rule: searchForward.induct)
  case (1 buf needle p hi)
  from "1.prems" show ?case
    by (subst (asm) searchForward.simps) (auto split: if_splits dest!: "1.IH"[rotated -1])
qed

lemma searchForward_least:
  "searchForward buf needle p hi = Some q \<Longrightarrow> p \<le> r \<Longrightarrow> r < q \<Longrightarrow>
     take (length needle) (drop r buf) \<noteq> needle"
proof (induction buf needle p hi rule: searchForward.induct)
  case (1 buf needle p hi)
  from "1.prems"(1) have
    nomatch: "take (length needle) (drop p buf) \<noteq> needle" and
    rest: "searchForward buf needle (Suc p) hi = Some q" and
    bounds: "\<not> (hi < p + length needle \<or> length buf < p + length needle)"
    using "1.prems"(2,3) by (subst (asm) searchForward.simps, auto split: if_splits)+
  show ?case
  proof (cases "r = p")
    case True
    then show ?thesis using nomatch by simp
  next
    case False
    then have "Suc p \<le> r" using "1.prems"(2) by simp
    then show ?thesis using "1.IH"[OF bounds nomatch rest] "1.prems"(3) by simp
  qed
qed

lemma searchForward_None:
  "searchForward buf needle p hi = None \<Longrightarrow> p \<le> r \<Longrightarrow> r + length needle \<le> hi \<Longrightarrow>
     r + length needle \<le> length buf \<Longrightarrow> take (length needle) (drop r buf) \<noteq> needle"
proof (induction buf needle p hi rule: searchForward.induct)
  case (1 buf needle p hi)
  have bounds: "\<not> (hi < p + length needle \<or> length buf < p + length needle)"
    using "1.prems"(2,3,4) by auto
  from "1.prems"(1) bounds have
    nomatch: "take (length needle) (drop p buf) \<noteq> needle" and
    rest: "searchForward buf needle (Suc p) hi = None"
    by (subst (asm) searchForward.simps, auto split: if_splits)+
  show ?case
  proof (cases "r = p")
    case True
    then show ?thesis using nomatch by simp
  next
    case False
    then have "Suc p \<le> r" using "1.prems"(2) by simp
    then show ?thesis using "1.IH"[OF bounds nomatch rest] "1.prems"(3,4) by simp
  qed
qed

lemma findText_found:
  assumes "findText e needle f E = (a, b)" and "a \<noteq> - 1"
  shows "0 \<le> a \<and> nat f \<le> nat a \<and> b = a + int (length needle) \<and> nat b \<le> nat E
         \<and> nat a + length needle \<le> length (buffer e)
         \<and> take (length needle) (drop (nat a) (buffer e)) = needle"
proof (cases "searchForward (buffer e) needle (nat f) (nat E)")
  case None
  with assms show ?thesis by (simp add: findText_def)
next
  case (Some p)
  with assms(1) have ab: "a = int p" "b = int p + int (length needle)"
    by (simp_all add: findText_def)
  from searchForward_Some[OF Some] show ?thesis
    unfolding ab by (simp add: nat_add_distrib)
qed

lemma findText_leftmost:
  assumes "findText e needle f E = (a, b)" and "a \<noteq> - 1"
    and "nat f \<le> r" and "r < nat a"
  shows "take (length needle) (drop r (buffer e)) \<noteq> needle"
proof (cases "searchForward (buffer e) needle (nat f) (nat E)")
  case None
  with assms show ?thesis by (simp add: findText_def)
next
  case (Some p)
  with assms(1) have "a = int p" by (simp add: findText_def)
  with searchForward_least[OF Some assms(3)] assms(4) show ?thesis by simp
qed

lemma findText_not_found:
  assumes "findText e needle f E = (a, b)" and "a = - 1"
    and "nat f \<le> r" and "r + length needle \<le> nat E" and "r + length needle \<le> length (buffer e)"
  shows "take (length needle) (drop r (buffer e)) \<noteq> needle"
proof (cases "searchForward (buffer e) needle (nat f) (nat E)")
  case None
  from searchForward_None[OF None assms(3,4,5)] show ?thesis .
next
  case (Some p)
  with assms(1,2) show ?thesis by (simp add: findText_def)
qed

lemma annotate_ex:
  assumes "needle \<noteq> []"
  shows "\<exists>F. \<forall>st. annotate e needle f E st = Some (addRanges F st)"
proof (induction "nat E - nat f" arbitrary: f rule: less_induct)
  case less
  obtain a b where pos: "findText e needle f E = (a, b)" by force
  show ?case
  proof (cases "a = - 1")
    case True
    have "\<forall>st. annotate e needle f E st = Some (addRanges (markSet e (a, b)) st)"
      by (subst annotate.simps) (simp add: pos True markOccurrence_addRanges)
    then show ?thesis by blast
  next
    case False
    from assms have "0 < length needle" by simp
    with findText_found[OF pos False] have "nat E - nat b < nat E - nat f"
      by linarith
    from less[OF this] obtain F where F: "\<forall>st. annotate e needle b E st = Some (addRanges F st)"
      by blast
    have "\<forall>st. annotate e needle f E st = Some (addRanges (markSet e (a, b) \<union> F) st)"
      by (subst annotate.simps) (simp add: pos False markOccurrence_addRanges F)
    then show ?thesis by blast
  qed
qed

lemma annotate_eq:
  assumes "needle \<noteq> []"
  shows "annotate e needle f E st = Some (addRanges (annotFills e needle f E) st)"
proof -
  from annotate_ex[OF assms] obtain F
    where F: "\<forall>st. annotate e needle f E st = Some (addRanges F st)" by blast
  then have "annotFills e needle f E = F"
    by (simp add: annotFills_def addRanges_ranges noIndicators_def)
  with F show ?thesis by simp
qed

lemma addRanges_inject:
  "addRanges F noIndicators = addRanges G noIndicators \<Longrightarrow> F = G"
  by (auto simp: addRanges_def noIndicators_def fun_eq_iff dest!: arg_cong[where f = indicatorRanges] split: if_splits)

lemma annotFills_rec:
  assumes "needle \<noteq> []"
  shows "annotFills e needle f E =
     markSet e (findText e needle f E) \<union>
       (if fst (findText e needle f E) \<noteq> - 1
        then annotFills e needle (snd (findText e needle f E)) E else {})"
proof -
  have "annotate e needle f E noIndicators =
      Some (addRanges (markSet e (findText e needle f E) \<union>
       (if fst (findText e needle f E) \<noteq> - 1
        then annotFills e needle (snd (findText e needle f E)) E else {})) noIndicators)"
    by (subst annotate.simps) (simp add: markOccurrence_addRanges annotate_eq[OF assms] Let_def)
  then show ?thesis
    unfolding annotate_eq[OF assms, of e f E noIndicators]
    by (auto dest: addRanges_inject)
qed

lemma matchedTexts_nonempty: "[] \<notin> set (matchedTexts s)"
  by (simp add: matchedTexts_def)

lemma annotateAll_eq:
  "[] \<notin> set ts \<Longrightarrow>
     annotateAll e ts s E st = Some (addRanges (\<Union>t\<in>set ts. annotFills e t s E) st)"
proof (induction ts arbitrary: st)
  case Nil
  then show ?case by simp
next
  case (Cons t ts)
  then have "t \<noteq> []" and "[] \<notin> set ts" by auto
  then show ?case
    by (simp add: annotate_eq Cons.IH Un_commute)
qed

lemma scanLine_eq: "scanLine e line st = Some (addRanges (lineFills e line) st)"
  by (simp add: scanLine_def lineFills_def annotateAll_eq matchedTexts_nonempty Let_def)

lemma nextLine_gt: "lastChild_ok e \<Longrightarrow> line < nextLine e line"
proof -
  assume "lastChild_ok e"
  then have "line \<le> lastChild e line" by (simp add: lastChild_ok_def)
  then show ?thesis by (simp add: nextLine_def)
qed

lemma scanLoop_ex:
  assumes ok: "lastChild_ok e"
  shows "\<exists>tr F. \<forall>acc. scanLoop e l b acc = Some (fst acc @ tr, addRanges F (snd acc))"
proof (induction "nat (lineCount e - l)" arbitrary: l b rule: less_induct)
  case less
  show ?case
  proof (cases "0 \<le> b \<and> l < lineCount e")
    case False
    from False have outside: "(0 \<le> b \<and> l < lineCount e) = False" by simp
    have "\<forall>acc. scanLoop e l b acc = Some (fst acc @ [], addRanges {} (snd acc))"
      by (subst scanLoop.simps) (simp add: outside)
    then show ?thesis by blast
  next
    case inside: True
    show ?thesis
    proof (cases "lineVisible e l")
      case False
      have "nat (lineCount e - (l + 1)) < nat (lineCount e - l)" using inside by linarith
      from less[OF this] obtain tr F where
        "\<forall>acc. scanLoop e (l + 1) b acc = Some (fst acc @ tr, addRanges F (snd acc))" by blast
      then have "\<forall>acc. scanLoop e l b acc = Some (fst acc @ tr, addRanges F (snd acc))"
        using inside False by (subst scanLoop.simps) simp
      then show ?thesis by blast
    next
      case True
      have "nat (lineCount e - nextLine e l) < nat (lineCount e - l)"
        using inside nextLine_gt[OF ok, of l] by linarith
      from less[OF this] obtain tr F where rec:
        "\<forall>acc. scanLoop e (nextLine e l) (b - wrapCount e l) acc
               = Some (fst acc @ tr, addRanges F (snd acc))" by blast
      have "\<forall>acc. scanLoop e l b acc
               = Some (fst acc @ (l # tr), addRanges (lineFills e l \<union> F) (snd acc))"
        using inside True
        by (subst scanLoop.simps) (simp add: scanLine_eq rec nextLine_def[symmetric])
      then show ?thesis by blast
    qed
  qed
qed

lemma scanLoop_eq:
  assumes "lastChild_ok e"
  shows "scanLoop e l b acc = Some (fst acc @ scanTrace e l b, addRanges (scanFills e l b) (snd acc))"
proof -
  from scanLoop_ex[OF assms] obtain tr F where
    r: "\<forall>acc. scanLoop e l b acc = Some (fst acc @ tr, addRanges F (snd acc))" by blast
  then have "scanTrace e l b = tr" "scanFills e l b = F"
    by (simp_all add: scanTrace_def scanFills_def addRanges_ranges noIndicators_def)
  with r show ?thesis by (cases acc) simp
qed

lemma scanLoop_unfold:
  assumes "lastChild_ok e"
  shows "scanLoop e l b ([], noIndicators) =
     (if 0 \<le> b \<and> l < lineCount e then
        if \<not> lineVisible e l
        then Some (scanTrace e (l + 1) b, addRanges (scanFills e (l + 1) b) noIndicators)
        else Some (l # scanTrace e (nextLine e l) (b - wrapCount e l),
              addRanges (lineFills e l \<union> scanFills e (nextLine e l) (b - wrapCount e l)) noIndicators)
      else Some ([], noIndicators))"
  by (subst scanLoop.simps)
     (simp add: scanLine_eq scanLoop_eq[OF assms] nextLine_def[symmetric])

lemma scanTrace_rec:
  assumes "lastChild_ok e"
  shows "scanTrace e l b =
     (if 0 \<le> b \<and> l < lineCount e then
        if \<not> lineVisible e l then scanTrace e (l + 1) b
        else l # scanTrace e (nextLine e l) (b - wrapCount e l)
      else [])"
  by (subst scanTrace_def) (simp add: scanLoop_unfold[OF assms])

lemma scanFills_rec:
  assumes "lastChild_ok e"
  shows "scanFills e l b =
     (if 0 \<le> b \<and> l < lineCount e then
        if \<not> lineVisible e l then scanFills e (l + 1) b
        else lineFills e l \<union> scanFills e (nextLine e l) (b - wrapCount e l)
      else {})"
  by (subst scanFills_def, subst scanLoop_unfold[OF assms])
     (simp add: addRanges_ranges noIndicators_def)

lemma findText_progress:
  assumes "findText e needle f E = (a, b)" and "a \<noteq> - 1" and "needle \<noteq> []"
  shows "nat E - nat b < nat E - nat f"
proof -
  from assms(3) have "0 < length needle" by simp
  with findText_found[OF assms(1,2)] show ?thesis by linarith
qed

lemma markSet_ge1: "p \<in> markSet e pos \<Longrightarrow> 1 \<le> p"
  by (auto simp: markSet_def Let_def split: if_splits)

lemma annotFills_ge1:
  assumes "needle \<noteq> []"
  shows "p \<in> annotFills e needle f E \<Longrightarrow> 1 \<le> p"
proof (induction "nat E - nat f" arbitrary: f rule: less_induct)
  case less
  obtain a b where pos: "findText e needle f E = (a, b)" by force
  from less.prems have "p \<in> markSet e (a, b) \<or> (a \<noteq> - 1 \<and> p \<in> annotFills e needle b E)"
    by (subst (asm) annotFills_rec[OF assms]) (auto simp: pos split: if_splits)
  then show ?case
  proof
    assume "p \<in> markSet e (a, b)"
    then show ?thesis by (rule markSet_ge1)
  next
    assume *: "a \<noteq> - 1 \<and> p \<in> annotFills e needle b E"
    then have "nat E - nat b < nat E - nat f"
      using findText_progress[OF pos _ assms] by blast
    from less.hyps[OF this] * show ?thesis by blast
  qed
qed

lemma lineFills_ge1: "p \<in> lineFills e line \<Longrightarrow> 1 \<le> p"
  using matchedTexts_nonempty by (auto simp: lineFills_def dest!: annotFills_ge1[rotated])

lemma scanFills_ge1:
  assumes "lastChild_ok e"
  shows "p \<in> scanFills e l b \<Longrightarrow> 1 \<le> p"
proof (induction "nat (lineCount e - l)" arbitrary: l b rule: less_induct)
  case less
  show ?case
  proof (cases "0 \<le> b \<and> l < lineCount e")
    case False
    with less.prems show ?thesis by (subst (asm) scanFills_rec[OF assms]) auto
  next
    case inside: True
    show ?thesis
    proof (cases "lineVisible e l")
      case False
      have m: "nat (lineCount e - (l + 1)) < nat (lineCount e - l)" using inside by linarith
      from less.prems inside False have "p \<in> scanFills e (l + 1) b"
        by (subst (asm) scanFills_rec[OF assms]) simp
      from less.hyps[OF m this] show ?thesis .
    next
      case True
      have m: "nat (lineCount e - nextLine e l) < nat (lineCount e - l)"
        using inside nextLine_gt[OF assms, of l] by linarith
      from less.prems inside True
      have "p \<in> lineFills e l \<or> p \<in> scanFills e (nextLine e l) (b - wrapCount e l)"
        by (subst (asm) scanFills_rec[OF assms]) simp
      then show ?thesis using less.hyps[OF m] lineFills_ge1 by blast
    qed
  qed
qed

lemma scanTrace_lines:
  assumes "lastChild_ok e"
  shows "x \<in> set (scanTrace e l b) \<Longrightarrow> l \<le> x \<and> x < lineCount e \<and> lineVisible e x"
proof (induction "nat (lineCount e - l)" arbitrary: l b rule: less_induct)
  case less
  show ?case
  proof (cases "0 \<le> b \<and> l < lineCount e")
    case False
    with less.prems show ?thesis by (subst (asm) scanTrace_rec[OF assms]) auto
  next
    case inside: True
    show ?thesis
    proof (cases "lineVisible e l")
      case False
      have m: "nat (lineCount e - (l + 1)) < nat (lineCount e - l)" using inside by linarith
      from less.prems inside False have "x \<in> set (scanTrace e (l + 1) b)"
        by (subst (asm) scanTrace_rec[OF assms]) simp
      from less.hyps[OF m this] show ?thesis by simp
    next
      case True
      have m: "nat (lineCount e - nextLine e l) < nat (lineCount e - l)"
        using inside nextLine_gt[OF assms, of l] by linarith
      from less.prems inside True
      have "x = l \<or> x \<in> set (scanTrace e (nextLine e l) (b - wrapCount e l))"
        by (subst (asm) scanTrace_rec[OF assms]) simp
      then show ?thesis
        using less.hyps[OF m] inside True nextLine_gt[OF assms, of l] by fastforce
    qed
  qed
qed

lemma scanTrace_first_visible:
  assumes "lastChild_ok e"
  shows "scanTrace e l b = x # xs \<Longrightarrow> l \<le> k \<Longrightarrow> k < x \<Longrightarrow> \<not> lineVisible e k"
proof (induction "nat (lineCount e - l)" arbitrary: l rule: less_induct)
  case less
  show ?case
  proof (cases "0 \<le> b \<and> l < lineCount e")
    case False
    with less.prems show ?thesis by (subst (asm) scanTrace_rec[OF assms]) auto
  next
    case inside: True
    show ?thesis
    proof (cases "lineVisible e l")
      case False
      have m: "nat (lineCount e - (l + 1)) < nat (lineCount e - l)" using inside by linarith
      from less.prems(1) inside False have t: "scanTrace e (l + 1) b = x # xs"
        by (subst (asm) scanTrace_rec[OF assms]) simp
      show ?thesis
      proof (cases "k = l")
        case True
        with False show ?thesis by simp
      next
        case neq: False
        with less.prems(2) have "l + 1 \<le> k" by simp
        from less.hyps[OF m t this less.prems(3)] show ?thesis .
      qed
    next
      case True
      from less.prems(1) inside True have "x = l"
        by (subst (asm) scanTrace_rec[OF assms]) simp
      with less.prems(2,3) show ?thesis by simp
    qed
  qed
qed

lemma scanTrace_nonempty:
  assumes "lastChild_ok e" and "0 \<le> b"
  shows "l \<le> k \<Longrightarrow> k < lineCount e \<Longrightarrow> lineVisible e k \<Longrightarrow> scanTrace e l b \<noteq> []"
proof (induction "nat (lineCount e - l)" arbitrary: l rule: less_induct)
  case less
  from less.prems have inside: "l < lineCount e" by simp
  show ?case
  proof (cases "lineVisible e l")
    case True
    with inside assms(2) show ?thesis
      by (subst scanTrace_rec[OF assms(1)]) simp
  next
    case False
    with less.prems have "l + 1 \<le> k" by (cases "k = l") auto
    moreover have "nat (lineCount e - (l + 1)) < nat (lineCount e - l)" using inside by linarith
    ultimately have "scanTrace e (l + 1) b \<noteq> []"
      using less.hyps less.prems(2,3) by blast
    with inside assms(2) False show ?thesis
      by (subst scanTrace_rec[OF assms(1)]) simp
  qed
qed

lemma scan_negative_budget:
  assumes "lastChild_ok e" and "b < 0"
  shows "scanTrace e l b = []" and "scanFills e l b = {}"
  using assms(2) by (simp_all add: scanTrace_rec[OF assms(1), of l b] scanFills_rec[OF assms(1), of l b])

lemma scan_zero_budget:
  assumes "lastChild_ok e" and wraps: "\<forall>line. 1 \<le> wrapCount e line"
  shows "length (scanTrace e l 0) \<le> 1 \<and> (scanTrace e l 0 = [] \<longrightarrow> scanFills e l 0 = {})"
proof (induction "nat (lineCount e - l)" arbitrary: l rule: less_induct)
  case less
  show ?case
  proof (cases "l < lineCount e")
    case False
    then show ?thesis
      by (simp add: scanTrace_rec[OF assms(1), of l 0] scanFills_rec[OF assms(1), of l 0])
  next
    case inside: True
    show ?thesis
    proof (cases "lineVisible e l")
      case False
      have m: "nat (lineCount e - (l + 1)) < nat (lineCount e - l)" using inside by linarith
      from less.hyps[OF m] inside False show ?thesis
        by (simp add: scanTrace_rec[OF assms(1), of l 0] scanFills_rec[OF assms(1), of l 0])
    next
      case True
      from wraps have "0 - wrapCount e l < 0"
        by (metis diff_0 neg_less_0_iff_less zero_less_one_class.zero_less_one order_less_le_trans)
      from scan_negative_budget(1)[OF assms(1) this] inside True show ?thesis
        by (simp add: scanTrace_rec[OF assms(1), of l 0])
    qed
  qed
qed

lemma findURLs_eq:
  assumes "lastChild_ok e"
  shows "findURLs ind e st =
     Some (scanTrace e (docLineFromVisible e (firstVisibleLine e)) (linesOnScreen e),
           addRanges (scanFills e (docLineFromVisible e (firstVisibleLine e)) (linesOnScreen e))
             (indicatorClearRange e 0 (editorLength e) (setIndicatorCurrent ind st)))"
  by (simp add: findURLs_def scanLoop_eq[OF assms] Let_def)

lemma cleared_current [simp]:
  "indicatorCurrent (indicatorClearRange e 0 n (setIndicatorCurrent ind st)) = ind"
  by (simp add: indicatorClearRange_def setIndicatorCurrent_def)

lemma cleared_ranges:
  "indicatorRanges (indicatorClearRange e 0 n (setIndicatorCurrent ind st)) i =
     (if i = ind \<and> validRange e 0 n then indicatorRanges st i - {0 ..< n} else indicatorRanges st i)"
  by (simp add: indicatorClearRange_def setIndicatorCurrent_def)

lemma markSet_covers:
  assumes "0 < a" and "a + len \<le> editorLength e"
  shows "{a ..< a + len - 1} \<subseteq> markSet e (a, a + len)"
  using assms by (auto simp: markSet_def Let_def validRange_def)

lemma annotFills_covers:
  assumes ne: "needle \<noteq> []"
    and sep: "\<forall>p\<in>set (occurrencePositions e needle f E).
                \<forall>q\<in>set (occurrencePositions e needle f E).
                  p < q \<longrightarrow> p + int (length needle) \<le> q"
    and p: "p \<in> set (occurrencePositions e needle f E)" "0 < p"
  shows "{p ..< p + int (length needle) - 1} \<subseteq> annotFills e needle f E"
  using sep p(1)
proof (induction "nat E - nat f" arbitrary: f rule: less_induct)
  case less
  let ?n = "int (length needle)"
  obtain a b where pos: "findText e needle f E = (a, b)" by force
  from less.prems(2) have occ: "occursAt e needle p" and fp: "f \<le> p" "0 \<le> p" and pE: "p + ?n \<le> E"
    by (auto simp: occurrencePositions_def)
  have found: "a \<noteq> - 1"
  proof
    assume "a = - 1"
    moreover have "nat f \<le> nat p" "nat p + length needle \<le> nat E"
      using fp pE by linarith+
    moreover have "nat p + length needle \<le> length (buffer e)"
      using occ by (simp add: occursAt_def)
    ultimately have "take (length needle) (drop (nat p) (buffer e)) \<noteq> needle"
      by (rule findText_not_found[OF pos])
    with occ show False by (simp add: occursAt_def)
  qed
  note F = findText_found[OF pos found]
  have rec: "annotFills e needle f E = markSet e (a, b) \<union> annotFills e needle b E"
    by (subst annotFills_rec[OF ne]) (simp add: pos found)
  have ap: "a \<le> p"
  proof (rule ccontr)
    assume "\<not> a \<le> p"
    with fp F have "nat f \<le> nat p" "nat p < nat a" by auto
    from findText_leftmost[OF pos found this] occ show False by (simp add: occursAt_def)
  qed
  show ?case
  proof (cases "a = p")
    case True
    with F have "b = p + ?n" "p + ?n \<le> editorLength e"
      by (auto simp: editorLength_def)
    with markSet_covers[OF p(2), of ?n e] rec True show ?thesis by auto
  next
    case False
    with ap have lt: "a < p" by simp
    have fa: "f \<le> a" using F by linarith
    have aocc: "a \<in> set (occurrencePositions e needle f E)"
      using F fa lt pE by (auto simp: occurrencePositions_def occursAt_def)
    from less.prems(1) aocc less.prems(2) lt have bp: "b \<le> p" using F by auto
    have sub: "set (occurrencePositions e needle b E) \<subseteq> set (occurrencePositions e needle f E)"
      using fa F ne by (auto simp: occurrencePositions_def)
    have pin: "p \<in> set (occurrencePositions e needle b E)"
      using occ bp pE fp by (auto simp: occurrencePositions_def)
    have sep': "\<forall>p\<in>set (occurrencePositions e needle b E).
                \<forall>q\<in>set (occurrencePositions e needle b E).
                  p < q \<longrightarrow> p + int (length needle) \<le> q"
      using less.prems(1) sub by blast
    from less.hyps[OF findText_progress[OF pos found ne] sep' pin] rec show ?thesis by auto
  qed
qed

section \<open>The claims\<close>

subsection \<open>The URL decorator\<close>

lemmas regex_eval = matchedTexts_def capturedTexts_def indexInFrom.simps matchHere_def urlRegex_def
  atWordBoundary_def isWord_def isAlnum_def hostChar_def tldChar_def pathChar_def

lemmas annotate_eval = annotate.simps markOccurrence_def findText_def searchForward.simps
  indicatorFillRange_def validRange_def editorLength_def charAt_def bracketed_def

lemma matchedTexts_at_most_one: "length (matchedTexts s) \<le> 1"
  by (auto simp: matchedTexts_def capturedTexts_def split: option.splits)

text \<open>
  C1. The matcher is claimed to return all the distinct URL-shaped substrings of a line.
  The code asks the pattern for one match only (a single \<open>indexIn\<close>), so on a line
  with two different URLs it returns the first and not the second, although the second,
  alone on a line, is matched.
\<close>

theorem C1_first_match_only:
  "matchedTexts ''http://a.io http://b.io'' = [''http://a.io'']
   \<and> matchedTexts ''http://b.io'' = [''http://b.io'']"
  by (simp add: regex_eval)

lemma oneLineEditor_ok: "lastChild_ok (oneLineEditor s rows)"
  by (simp add: lastChild_ok_def oneLineEditor_def)

lemma scan_one_line:
  assumes "0 \<le> rows"
  shows "findURLs ind (oneLineEditor s rows) st =
    map_option (\<lambda>st'. ([0], st'))
      (annotateAll (oneLineEditor s rows) (matchedTexts s) 0 (int (length s))
         (indicatorClearRange (oneLineEditor s rows) 0 (int (length s)) (setIndicatorCurrent ind st)))"
proof -
  have 1: "scanLoop (oneLineEditor s rows) 1 b acc = Some acc" for b acc
    by (subst scanLoop.simps) (simp add: oneLineEditor_def)
  have 2: "scanLine (oneLineEditor s rows) 0 st' =
      annotateAll (oneLineEditor s rows) (matchedTexts s) 0 (int (length s)) st'" for st'
    by (simp add: scanLine_def get_text_range_def oneLineEditor_def Let_def)
  have 3: "collapsedHeader (oneLineEditor s rows) 0 = False"
    by (simp add: collapsedHeader_def oneLineEditor_def)
  have 4: "lineCount (oneLineEditor s rows) = 1" "lineVisible (oneLineEditor s rows) 0"
    "docLineFromVisible (oneLineEditor s rows) (firstVisibleLine (oneLineEditor s rows)) = 0"
    "linesOnScreen (oneLineEditor s rows) = rows" "editorLength (oneLineEditor s rows) = int (length s)"
    by (simp_all add: oneLineEditor_def editorLength_def)
  show ?thesis
    unfolding findURLs_def Let_def 4
    by (subst scanLoop.simps) (simp add: assms 1 2 3 4 split: option.splits)
qed

lemma scan_two_occurrences_example:
  "highlighted 0 (findURLs 0 (oneLineEditor '' http://a.io http://a.io'' 10) noIndicators)
     = Some ({1 ..< 12} \<union> {13 ..< 24})"
proof -
  have m: "matchedTexts '' http://a.io http://a.io'' = [''http://a.io'']"
    by (simp add: regex_eval)
  show ?thesis
    apply (simp add: scan_one_line highlighted_def)
    apply (simp only: m annotateAll.simps)
    apply (simp add: annotate_eval oneLineEditor_def noIndicators_def indicatorClearRange_def setIndicatorCurrent_def)
    done
qed

text \<open>
  C2. Every occurrence of a matched text within the line is to be annotated. The code
  drops an occurrence that starts at buffer offset 0: the loop treats -1 alone as
  "not found" (line 97), yet the annotation is guarded by \<open>startUrl > 0\<close> (line 84).
  The line \<open>''http://a.io http://a.io''\<close> at the start of the buffer holds the
  matched text at the offsets 0 and 12, and the scan highlights the offsets 12 to 22
  only; the same line one offset further on, \<open>'' http://a.io http://a.io''\<close>, has
  both occurrences highlighted.
\<close>

theorem C2_offset_zero_occurrence_missed:
  "occurrencePositions (oneLineEditor ''http://a.io http://a.io'' 10) ''http://a.io'' 0 23 = [0, 12]
   \<and> highlighted 0 (findURLs 0 (oneLineEditor ''http://a.io http://a.io'' 10) noIndicators)
       = Some {12 ..< 23}
   \<and> occurrencePositions (oneLineEditor '' http://a.io http://a.io'' 10) ''http://a.io'' 0 24 = [1, 13]
   \<and> highlighted 0 (findURLs 0 (oneLineEditor '' http://a.io http://a.io'' 10) noIndicators)
       = Some ({1 ..< 12} \<union> {13 ..< 24})"
proof -
  have m: "matchedTexts ''http://a.io http://a.io'' = [''http://a.io'']"
    by (simp add: regex_eval)
  have "occurrencePositions (oneLineEditor ''http://a.io http://a.io'' 10) ''http://a.io'' 0 23 = [0, 12]"
    by (simp add: occurrencePositions_def occursAt_def oneLineEditor_def upto.simps)
  moreover have "highlighted 0 (findURLs 0 (oneLineEditor ''http://a.io http://a.io'' 10) noIndicators)
       = Some {12 ..< 23}"
    apply (simp add: scan_one_line highlighted_def)
    apply (simp only: m annotateAll.simps)
    apply (simp add: annotate_eval oneLineEditor_def noIndicators_def indicatorClearRange_def setIndicatorCurrent_def)
    done
  moreover have "occurrencePositions (oneLineEditor '' http://a.io http://a.io'' 10) ''http://a.io'' 0 24
      = [1, 13]"
    by (simp add: occurrencePositions_def occursAt_def oneLineEditor_def upto.simps)
  ultimately show ?thesis
    using scan_two_occurrences_example by simp
qed

text \<open>
  After an occurrence is found the next search starts at its end, and the loop stops
  when the search finds none.
\<close>

lemma annotate_restarts_after_occurrence:
  "(fst (findText e needle f E) \<noteq> - 1 \<longrightarrow>
      annotate e needle f E st =
        annotate e needle (fst (findText e needle f E) + int (length needle)) E
          (markOccurrence e (findText e needle f E) st))
   \<and> (fst (findText e needle f E) = - 1 \<longrightarrow> annotate e needle f E st = Some st)"
proof -
  obtain a b where pos: "findText e needle f E = (a, b)" by force
  have found: "annotate e needle f E st =
            annotate e needle (a + int (length needle)) E (markOccurrence e (a, b) st)"
    if "a \<noteq> - 1"
    using findText_found[OF pos that] that by (subst annotate.simps) (simp add: pos)
  have none: "annotate e needle f E st = Some st" if "a = - 1"
    using that by (subst annotate.simps) (simp add: pos markOccurrence_def)
  from found none show ?thesis
    by (simp add: pos)
qed

text \<open>
  For a matched text (not empty) whose occurrences within the span do not overlap each
  other, the loop ends, and every occurrence that starts at an offset greater than 0
  has all its offsets, but possibly the last one, carrying the current indicator
  afterwards.
\<close>

lemma annotate_later_occurrences:
  assumes "needle \<noteq> []"
    and "\<forall>p\<in>set (occurrencePositions e needle f E).
           \<forall>q\<in>set (occurrencePositions e needle f E).
             p < q \<longrightarrow> p + int (length needle) \<le> q"
  shows "\<exists>st'. annotate e needle f E st = Some st'
           \<and> (\<forall>p\<in>set (occurrencePositions e needle f E).
                 0 < p \<longrightarrow> {p ..< p + int (length needle) - 1}
                              \<subseteq> indicatorRanges st' (indicatorCurrent st))"
proof -
  have "{p ..< p + int (length needle) - 1}
          \<subseteq> indicatorRanges (addRanges (annotFills e needle f E) st) (indicatorCurrent st)"
    if "p \<in> set (occurrencePositions e needle f E)" and "0 < p" for p
    using annotFills_covers[OF assms that] by (auto simp: addRanges_ranges)
  then show ?thesis
    by (simp add: annotate_eq[OF assms(1)])
qed

lemma occurrence_last_char:
  assumes "take (length needle) (drop a buf) = needle" and "needle \<noteq> []"
    and "a + length needle \<le> length buf"
  shows "buf ! (a + length needle - 1) = last needle"
proof -
  from assms(2) have n: "length needle - 1 < length needle" by (cases needle) auto
  have "last needle = needle ! (length needle - 1)"
    using assms(2) by (simp add: last_conv_nth)
  also have "\<dots> = take (length needle) (drop a buf) ! (length needle - 1)"
    using assms(1) by simp
  also have "\<dots> = buf ! (a + (length needle - 1))"
    using n assms(3) by simp
  finally show ?thesis using n by simp
qed

text \<open>
  C3, in the form the code satisfies. For an occurrence [a, b) found at an offset
  \<open>a > 0\<close>, the end is shrunk by one exactly when the character before \<open>a\<close> and
  the last character of the occurrence itself (offset \<open>b - 1\<close>) form one of the four
  pairs; the indicator is then applied to [a, b - 1), and to [a, b) otherwise. For
  \<open>''(http://a.io/x)''\<close> the match includes the closing parenthesis, and the
  highlighted range [1, 14) leaves it out.
\<close>

theorem C3_trim_by_last_char:
  assumes "findText e needle f E = (a, b)" and "0 < a" and "needle \<noteq> []"
  shows "b = a + int (length needle)
     \<and> indicatorRanges (markOccurrence e (a, b) st) (indicatorCurrent st)
         = indicatorRanges st (indicatorCurrent st)
           \<union> (if bracketed (charAt e (a - 1)) (last needle) then {a ..< b - 1} else {a ..< b})"
proof -
  from assms(2) have found: "a \<noteq> - 1" by simp
  note F = findText_found[OF assms(1) found]
  from F have b: "b = a + int (length needle)" by simp
  from assms(3) have len: "0 < length needle" by simp
  have "buffer e ! (nat a + length needle - 1) = last needle"
    using F assms(3) by (intro occurrence_last_char) auto
  moreover have "nat (b - 1) = nat a + length needle - 1"
    using b F len by linarith
  moreover have "0 \<le> b - 1" "b - 1 < editorLength e"
    using b F assms(2) by (auto simp: editorLength_def)
  ultimately have last: "charAt e (b - 1) = last needle"
    by (simp add: charAt_def)
  have bE: "b \<le> editorLength e"
    using b F by (auto simp: editorLength_def)
  have "markSet e (a, b) =
      (if bracketed (charAt e (a - 1)) (last needle) then {a ..< b - 1} else {a ..< b})"
    using assms(2) bE by (auto simp: markSet_def Let_def last validRange_def)
  then show ?thesis
    using b by (simp add: markOccurrence_addRanges addRanges_ranges)
qed

theorem C3_trim_by_last_char_witness:
  "indicatorRanges
     (markOccurrence (oneLineEditor ''(http://a.io/x)'' 10) (1, 15) noIndicators) 0 = {1 ..< 14}"
proof -
  have f: "findText (oneLineEditor ''(http://a.io/x)'' 10) ''http://a.io/x)'' 0 15 = (1, 15)"
    by (simp add: findText_def searchForward.simps oneLineEditor_def)
  have c: "charAt (oneLineEditor ''(http://a.io/x)'' 10) 0 = CHR ''(''"
    by (simp add: charAt_def editorLength_def oneLineEditor_def)
  from C3_trim_by_last_char [OF f, of noIndicators] show ?thesis
    by (simp add: c bracketed_def noIndicators_def)
qed

text \<open>
  C3 as stated fails. In \<open>''[http://a.io/x]''\<close> the occurrence found is [1, 14); the
  character before its start is an opening bracket and the character that follows its
  end, at offset 14, is the closing one; yet the end is not shrunk: the offsets 1 to 13
  are highlighted.
\<close>

theorem C3_counterexample:
  "findText (oneLineEditor ''[http://a.io/x]'' 10) ''http://a.io/x'' 0 15 = (1, 14)
   \<and> bracketed (charAt (oneLineEditor ''[http://a.io/x]'' 10) (1 - 1))
                (charAt (oneLineEditor ''[http://a.io/x]'' 10) 14)
   \<and> highlighted 0 (findURLs 0 (oneLineEditor ''[http://a.io/x]'' 10) noIndicators)
       = Some {1 ..< 14}"
proof -
  have m: "matchedTexts ''[http://a.io/x]'' = [''http://a.io/x'']"
    by (simp add: regex_eval)
  have "highlighted 0 (findURLs 0 (oneLineEditor ''[http://a.io/x]'' 10) noIndicators)
       = Some {1 ..< 14}"
    apply (simp add: scan_one_line highlighted_def)
    apply (simp only: m annotateAll.simps)
    apply (simp add: annotate_eval oneLineEditor_def noIndicators_def indicatorClearRange_def setIndicatorCurrent_def)
    done
  then show ?thesis
    by (simp add: findText_def searchForward.simps oneLineEditor_def charAt_def editorLength_def
        bracketed_def)
qed

lemma scan_zero_rows_example:
  "findURLs 0 (oneLineEditor '' http://a.io'' 0) noIndicators =
      Some ([0], \<lparr>indicatorCurrent = 0, indicatorRanges = (\<lambda>i. {})(0 := {1 ..< 12})\<rparr>)"
proof -
  have m: "matchedTexts '' http://a.io'' = [''http://a.io'']"
    by (simp add: regex_eval)
  show ?thesis
    apply (simp add: scan_one_line)
    apply (simp only: m annotateAll.simps)
    apply (simp add: annotate_eval oneLineEditor_def noIndicators_def indicatorClearRange_def setIndicatorCurrent_def)
    done
qed

text \<open>
  C4 as stated fails. With no complete line on screen (\<open>linesOnScreen = 0\<close>) the
  loop still runs once, since it goes on while the number of rows left is at least 0: it
  scans line 0 and highlights the URL there.
\<close>

theorem C4_counterexample:
  "linesOnScreen (oneLineEditor '' http://a.io'' 0) = 0
   \<and> map_option fst (findURLs 0 (oneLineEditor '' http://a.io'' 0) noIndicators) = Some [0]
   \<and> highlighted 0 (findURLs 0 (oneLineEditor '' http://a.io'' 0) noIndicators) = Some {1 ..< 12}"
  by (simp add: scan_zero_rows_example highlighted_def) (simp add: oneLineEditor_def)

text \<open>
  C4, in the form the code satisfies. When the number of lines on screen is 0 (and every
  line takes at least one row), a scan pass ends and enumerates exactly one line, the
  first visible line at or after the first line of the viewport, when there is such a
  line before the end of the document, and no line otherwise; if it enumerates none, the
  indicators are those left by the clearing at the start of the pass.
\<close>

theorem C4_zero_rows_one_line:
  assumes "lastChild_ok e" and "\<forall>line. 1 \<le> wrapCount e line" and "linesOnScreen e = 0"
  shows "\<exists>tr st'. findURLs ind e st = Some (tr, st') \<and> length tr \<le> 1
     \<and> (\<forall>l\<in>set tr. docLineFromVisible e (firstVisibleLine e) \<le> l \<and> l < lineCount e
            \<and> lineVisible e l
            \<and> (\<forall>k. docLineFromVisible e (firstVisibleLine e) \<le> k \<and> k < l
                   \<longrightarrow> \<not> lineVisible e k))
     \<and> (tr = [] \<longleftrightarrow>
           \<not> (\<exists>k. docLineFromVisible e (firstVisibleLine e) \<le> k \<and> k < lineCount e
                    \<and> lineVisible e k))
     \<and> (tr = [] \<longrightarrow>
           st' = indicatorClearRange e 0 (editorLength e) (setIndicatorCurrent ind st))"
proof -
  let ?l0 = "docLineFromVisible e (firstVisibleLine e)"
  let ?tr = "scanTrace e ?l0 0"
  have len: "length ?tr \<le> 1" and none: "?tr = [] \<longrightarrow> scanFills e ?l0 0 = {}"
    using scan_zero_budget[OF assms(1,2), of ?l0] by simp_all
  have lines: "?l0 \<le> l \<and> l < lineCount e \<and> lineVisible e l
        \<and> (\<forall>k. ?l0 \<le> k \<and> k < l \<longrightarrow> \<not> lineVisible e k)" if "l \<in> set ?tr" for l
  proof -
    from that len have "?tr = [l]" by (cases ?tr) auto
    with scanTrace_first_visible[OF assms(1), of ?l0 0 l "[]"] scanTrace_lines[OF assms(1) that]
    show ?thesis by blast
  qed
  have some: "?tr \<noteq> []" if "?l0 \<le> k" "k < lineCount e" "lineVisible e k" for k
    using scanTrace_nonempty[OF assms(1) _ that, of 0] by simp
  have empty: "?tr = [] \<longleftrightarrow> \<not> (\<exists>k. ?l0 \<le> k \<and> k < lineCount e \<and> lineVisible e k)"
  proof
    assume "?tr = []"
    with some show "\<not> (\<exists>k. ?l0 \<le> k \<and> k < lineCount e \<and> lineVisible e k)" by blast
  next
    assume *: "\<not> (\<exists>k. ?l0 \<le> k \<and> k < lineCount e \<and> lineVisible e k)"
    show "?tr = []"
    proof (cases ?tr)
      case Nil
      then show ?thesis .
    next
      case (Cons x xs)
      then have "x \<in> set ?tr" by simp
      from lines[OF this] * show ?thesis by blast
    qed
  qed
  have "findURLs ind e st = Some (?tr, addRanges (scanFills e ?l0 0)
          (indicatorClearRange e 0 (editorLength e) (setIndicatorCurrent ind st)))"
    by (simp add: findURLs_eq[OF assms(1)] assms(3))
  moreover have "?tr = [] \<longrightarrow> addRanges (scanFills e ?l0 0)
          (indicatorClearRange e 0 (editorLength e) (setIndicatorCurrent ind st))
        = indicatorClearRange e 0 (editorLength e) (setIndicatorCurrent ind st)"
    using none by simp
  ultimately show ?thesis
    using len lines empty by blast
qed

theorem C4_zero_rows_one_line_witness:
  "\<exists>st'. findURLs 0 (oneLineEditor '' http://a.io'' 0) noIndicators = Some ([0], st')
     \<and> length [0::int] \<le> 1 \<and> lineVisible (oneLineEditor '' http://a.io'' 0) 0"
proof -
  have h: "\<forall>line. 1 \<le> wrapCount (oneLineEditor '' http://a.io'' 0) line"
    "linesOnScreen (oneLineEditor '' http://a.io'' 0) = 0"
    by (simp_all add: oneLineEditor_def)
  from C4_zero_rows_one_line [OF oneLineEditor_ok h, of 0 noIndicators] show ?thesis
    by (auto simp: scan_zero_rows_example)
qed

text \<open>
  C5. When the loop is at a visible line \<open>l\<close> that is the header of a collapsed fold,
  it scans \<open>l\<close> and goes on, in one step, at the line after the last child of
  \<open>l\<close>; every line it enumerates after \<open>l\<close> lies beyond that last child, so no
  line of the fold is enumerated.
\<close>

theorem C5_collapsed_fold_jump:
  assumes "lastChild_ok e" and "0 \<le> b" and "l < lineCount e"
    and "lineVisible e l" and "collapsedHeader e l"
  shows "\<exists>st1 tr st'. scanLine e l st = Some st1
     \<and> scanLoop e l b (tr0, st)
         = scanLoop e (lastChild e l + 1) (b - wrapCount e l) (tr0 @ [l], st1)
     \<and> scanLoop e l b (tr0, st) = Some (tr0 @ l # tr, st')
     \<and> (\<forall>x\<in>set tr. lastChild e l < x)"
proof -
  let ?st1 = "addRanges (lineFills e l) st"
  let ?tr = "scanTrace e (lastChild e l + 1) (b - wrapCount e l)"
  have nl: "nextLine e l = lastChild e l + 1"
    using assms(5) by (simp add: nextLine_def)
  have step: "scanLoop e l b (tr0, st)
         = scanLoop e (lastChild e l + 1) (b - wrapCount e l) (tr0 @ [l], ?st1)"
    using assms(2-5) by (subst scanLoop.simps) (simp add: scanLine_eq)
  have "scanTrace e l b = l # ?tr"
    using assms(2-4) by (subst scanTrace_rec[OF assms(1)]) (simp add: nl)
  then have res: "scanLoop e l b (tr0, st) = Some (tr0 @ l # ?tr, addRanges (scanFills e l b) st)"
    by (simp add: scanLoop_eq[OF assms(1)])
  have "\<forall>x\<in>set ?tr. lastChild e l < x"
    using scanTrace_lines[OF assms(1), of _ "lastChild e l + 1"] by fastforce
  moreover have "scanLine e l st = Some ?st1"
    by (rule scanLine_eq)
  ultimately show ?thesis
    using step res by blast
qed

lemma foldedEditor_ok: "lastChild_ok foldedEditor"
  by (simp add: lastChild_ok_def foldedEditor_def)

lemma foldedEditor_simps:
  "lineCount foldedEditor = 13"
  "lineVisible foldedEditor l = (\<not> (6 \<le> l \<and> l \<le> 10))"
  "collapsedHeader foldedEditor l = (l = 5)"
  "lastChild foldedEditor 5 = 10"
  "wrapCount foldedEditor l = 1"
  "docLineFromVisible foldedEditor (firstVisibleLine foldedEditor) = 5"
  "linesOnScreen foldedEditor = 3"
  by (simp_all add: foldedEditor_def collapsedHeader_def SC_FOLDLEVELHEADERFLAG_def)

lemma foldedEditor_trace:
  "map_option fst (findURLs 0 foldedEditor noIndicators) = Some [5, 11, 12]"
proof -
  have m: "matchedTexts [] = []"
    by (simp add: regex_eval)
  have line: "scanLine foldedEditor l st = Some st" for l st
    by (simp add: scanLine_def get_text_range_def foldedEditor_def m)
  have 13: "scanLoop foldedEditor 13 b acc = Some acc" for b acc
    by (subst scanLoop.simps) (simp add: foldedEditor_simps)
  have 12: "scanLoop foldedEditor 12 1 acc = Some (fst acc @ [12], snd acc)" for acc
    by (subst scanLoop.simps) (simp add: foldedEditor_simps line 13)
  have 11: "scanLoop foldedEditor 11 2 acc = Some (fst acc @ [11, 12], snd acc)" for acc
    by (subst scanLoop.simps) (simp add: foldedEditor_simps line 12)
  have 5: "scanLoop foldedEditor 5 3 acc = Some (fst acc @ [5, 11, 12], snd acc)" for acc
    by (subst scanLoop.simps) (simp add: foldedEditor_simps line 11)
  show ?thesis
    by (simp add: findURLs_def Let_def foldedEditor_simps 5)
qed

theorem C5_collapsed_fold_jump_witness:
  "\<exists>st1 tr st'. scanLine foldedEditor 5 noIndicators = Some st1
     \<and> scanLoop foldedEditor 5 3 ([], noIndicators)
         = scanLoop foldedEditor 11 2 ([5], st1)
     \<and> scanLoop foldedEditor 5 3 ([], noIndicators) = Some (5 # tr, st')
     \<and> list_all (\<lambda>x. 10 < x) tr"
proof -
  have h: "0 \<le> (3::int)" "5 < lineCount foldedEditor" "lineVisible foldedEditor 5"
    "collapsedHeader foldedEditor 5"
    by (simp_all add: foldedEditor_simps)
  from C5_collapsed_fold_jump [OF foldedEditor_ok h, of noIndicators "[]"] show ?thesis
    by (simp add: foldedEditor_simps list_all_iff)
qed

lemma cleared_within:
  assumes "indicatorRanges st ind \<subseteq> {0 ..< editorLength e}"
  shows "indicatorRanges (indicatorClearRange e 0 (editorLength e) (setIndicatorCurrent ind st)) ind = {}"
  using assms by (auto simp: cleared_ranges validRange_def)

text \<open>
  C9. A scan pass ends, and a second pass on the same editor, started from the
  indicators the first pass left, ends with the same lines enumerated and the same
  indicators. The ranges a pass leaves do not depend on the ranges it found: two passes
  on the same editor from any two indicator states (with ranges inside the document)
  highlight the same offsets.
\<close>

theorem C9_rescan_same_state:
  assumes "lastChild_ok e"
  shows "\<exists>r. findURLs ind e st = Some r \<and> findURLs ind e (snd r) = Some r
     \<and> (indicatorRanges st ind \<subseteq> {0 ..< editorLength e}
          \<and> indicatorRanges st2 ind \<subseteq> {0 ..< editorLength e}
        \<longrightarrow> highlighted ind (findURLs ind e st2) = highlighted ind (findURLs ind e st))"
proof -
  let ?F = "scanFills e (docLineFromVisible e (firstVisibleLine e)) (linesOnScreen e)"
  let ?clear = "\<lambda>s. indicatorClearRange e 0 (editorLength e) (setIndicatorCurrent ind s)"
  have "addRanges ?F (?clear (addRanges ?F (?clear st))) = addRanges ?F (?clear st)"
    by (rule indicators.equality)
       (auto simp: addRanges_def indicatorClearRange_def setIndicatorCurrent_def fun_eq_iff)
  moreover have "indicatorRanges (addRanges ?F (?clear s)) ind = ?F"
    if "indicatorRanges s ind \<subseteq> {0 ..< editorLength e}" for s
    using cleared_within[OF that] by (simp add: addRanges_ranges)
  ultimately show ?thesis
    by (simp add: findURLs_eq[OF assms] highlighted_def)
qed

theorem C9_rescan_same_state_witness:
  "\<exists>r. findURLs 0 (oneLineEditor '' http://a.io'' 0) noIndicators = Some r
       \<and> findURLs 0 (oneLineEditor '' http://a.io'' 0) (snd r) = Some r
       \<and> highlighted 0 (findURLs 0 (oneLineEditor '' http://a.io'' 0)
            \<lparr>indicatorCurrent = 5, indicatorRanges = (\<lambda>i. {3})\<rparr>)
          = highlighted 0 (findURLs 0 (oneLineEditor '' http://a.io'' 0) noIndicators)"
  using C9_rescan_same_state [OF oneLineEditor_ok, of 0 "'' http://a.io''" 0 noIndicators
      "\<lparr>indicatorCurrent = 5, indicatorRanges = (\<lambda>i. {3})\<rparr>"]
  by (simp add: noIndicators_def editorLength_def oneLineEditor_def)

text \<open>
  C10. A search result that starts at offset 0 changes no indicator, and after a scan
  pass every offset that carries the indicator is 1 or greater (the ranges of the
  indicator before the pass lie inside the document).
\<close>

theorem C10_offset_zero_not_marked:
  assumes "lastChild_ok e" and "indicatorRanges st ind \<subseteq> {0 ..< editorLength e}"
  shows "markOccurrence e (0, endUrl) st = st
     \<and> (\<exists>tr st'. findURLs ind e st = Some (tr, st') \<and> (\<forall>p\<in>indicatorRanges st' ind. 1 \<le> p))"
proof -
  let ?F = "scanFills e (docLineFromVisible e (firstVisibleLine e)) (linesOnScreen e)"
  let ?st' = "addRanges ?F (indicatorClearRange e 0 (editorLength e) (setIndicatorCurrent ind st))"
  have "indicatorRanges ?st' ind \<subseteq> ?F"
    using assms(2) by (auto simp: addRanges_ranges cleared_ranges validRange_def)
  then have "\<forall>p\<in>indicatorRanges ?st' ind. 1 \<le> p"
    using scanFills_ge1[OF assms(1)] by blast
  moreover have "markOccurrence e (0, endUrl) st = st"
    by (simp add: markOccurrence_def)
  ultimately show ?thesis
    by (simp add: findURLs_eq[OF assms(1)])
qed

lemma scan_offset_zero_example:
  "findURLs 0 (oneLineEditor ''http://a.io'' 10) noIndicators = Some ([0], noIndicators)"
proof -
  have m: "matchedTexts ''http://a.io'' = [''http://a.io'']"
    by (simp add: regex_eval)
  show ?thesis
    apply (simp add: scan_one_line)
    apply (simp only: m annotateAll.simps)
    apply (simp add: annotate_eval oneLineEditor_def noIndicators_def indicatorClearRange_def setIndicatorCurrent_def)
    apply (simp add: fun_eq_iff)
    done
qed

theorem C10_offset_zero_not_marked_witness:
  "markOccurrence (oneLineEditor ''http://a.io'' 10) (0, 11) noIndicators = noIndicators
   \<and> findURLs 0 (oneLineEditor ''http://a.io'' 10) noIndicators = Some ([0], noIndicators)
   \<and> indicatorRanges noIndicators 0 = {}"
proof -
  have h: "indicatorRanges noIndicators 0 \<subseteq> {0 ..< editorLength (oneLineEditor ''http://a.io'' 10)}"
    by (simp add: noIndicators_def)
  from C10_offset_zero_not_marked [OF oneLineEditor_ok h, of 11] show ?thesis
    by (simp add: scan_offset_zero_example) (simp add: noIndicators_def)
qed

lemma deliver_trigger:
  "trigger ev \<Longrightarrow> deliver indicator QUrl e now ev s = s\<lparr>timer := timer_start now (timer s)\<rparr>"
  by (cases ev) (auto simp: trigger_def deliver_def notify_def)

lemma run_burst:
  assumes "burst (interval (timer s)) t0 evs" and "deadline (timer s) = Some (t0 + interval (timer s))"
  shows "scans (run indicator QUrl e evs s) = scans s
     \<and> interval (timer (run indicator QUrl e evs s)) = interval (timer s)
     \<and> singleShot (timer (run indicator QUrl e evs s)) = singleShot (timer s)
     \<and> deadline (timer (run indicator QUrl e evs s))
         = Some (last (t0 # map fst evs) + interval (timer s))"
  using assms
proof (induction evs arbitrary: s t0)
  case Nil
  then show ?case by simp
next
  case (Cons tev evs)
  obtain t ev where tev: "tev = (t, ev)" by (cases tev)
  from Cons.prems have b: "t0 \<le> t" "t < t0 + interval (timer s)" "trigger ev"
    "burst (interval (timer s)) t evs"
    by (simp_all add: tev)
  have idle: "timeout t s = s"
    using Cons.prems(2) b(2) by (simp add: timeout_def)
  let ?s' = "s\<lparr>timer := timer_start t (timer s)\<rparr>"
  have s': "deliver indicator QUrl e t ev (timeout t s) = ?s'"
    by (simp add: idle deliver_trigger[OF b(3)])
  have "burst (interval (timer ?s')) t evs" "deadline (timer ?s') = Some (t + interval (timer ?s'))"
    using b(4) by (simp_all add: timer_start_def)
  from Cons.IH[OF this] show ?case
    by (simp add: tev s' timer_start_def)
qed

lemma deliver_scans: "scans (deliver indicator QUrl e now ev s) = scans s"
proof (cases ev)
  case Resized
  then show ?thesis by (simp add: deliver_def)
next
  case (Notification pscn)
  have "scans (fold (perform now) as s) = scans s" for as
  proof (induction as arbitrary: s)
    case Nil
    then show ?case by simp
  next
    case (Cons a as)
    then show ?case by (cases a) simp_all
  qed
  with Notification show ?thesis by (simp add: deliver_def)
qed

text \<open>
  C6. The timer is a single-shot timer of 200 ms. Each of the five triggers restarts it
  and no event runs a scan by itself. After a burst of triggers, each less than 200 ms
  after the one before, no scan has run and one deadline is pending, 200 ms after the
  last trigger; when that deadline is reached exactly one scan runs and the timer is
  idle again.
\<close>

theorem C6_burst_one_scan:
  assumes "trigger ev" and "burst 200 t evs" and "last (t # map fst evs) + 200 \<le> T"
  shows "interval (timer URLFinder_init) = 200 \<and> singleShot (timer URLFinder_init)
     \<and> deliver indicator QUrl e now ev s = s\<lparr>timer := timer_start now (timer s)\<rparr>
     \<and> scans (deliver indicator QUrl e now ev' s) = scans s
     \<and> scans (run indicator QUrl e ((t, ev) # evs) URLFinder_init) = 0
     \<and> deadline (timer (run indicator QUrl e ((t, ev) # evs) URLFinder_init))
         = Some (last (t # map fst evs) + 200)
     \<and> scans (timeout T (run indicator QUrl e ((t, ev) # evs) URLFinder_init)) = 1
     \<and> deadline (timer (timeout T (run indicator QUrl e ((t, ev) # evs) URLFinder_init)))
         = None"
proof -
  let ?s1 = "URLFinder_init\<lparr>timer := timer_start t (timer URLFinder_init)\<rparr>"
  define R where "R = run indicator QUrl e ((t, ev) # evs) URLFinder_init"
  have first: "deliver indicator QUrl e t ev (timeout t URLFinder_init) = ?s1"
    by (simp add: deliver_trigger[OF assms(1)]) (simp add: timeout_def URLFinder_init_def)
  then have R: "R = run indicator QUrl e evs ?s1"
    by (simp add: R_def)
  have i: "interval (timer ?s1) = 200" "singleShot (timer ?s1)" "scans ?s1 = 0"
    "deadline (timer ?s1) = Some (t + interval (timer ?s1))"
    by (simp_all add: URLFinder_init_def timer_start_def)
  from assms(2) i(1) have "burst (interval (timer ?s1)) t evs" by simp
  from run_burst[OF this i(4), of indicator QUrl e]
  have pending: "scans R = 0" "singleShot (timer R)"
    "deadline (timer R) = Some (last (t # map fst evs) + 200)"
    using i(1,2,3) unfolding R by simp_all
  from pending assms(3) have "scans (timeout T R) = 1" "deadline (timer (timeout T R)) = None"
    by (simp_all add: timeout_def)
  moreover have "interval (timer URLFinder_init) = 200" "singleShot (timer URLFinder_init)"
    by (simp_all add: URLFinder_init_def)
  ultimately show ?thesis
    using pending deliver_trigger[OF assms(1)] deliver_scans
    unfolding R_def by simp
qed

theorem C6_burst_one_scan_witness:
  "scans (run 8 acceptAll (oneLineEditor [] 10)
            [(0, Resized), (50, Notification zoomed), (120, Notification inserted)] URLFinder_init) = 0
   \<and> scans (timeout 320 (run 8 acceptAll (oneLineEditor [] 10)
            [(0, Resized), (50, Notification zoomed), (120, Notification inserted)] URLFinder_init)) = 1"
proof -
  have h: "trigger Resized"
    "burst 200 0 [(50, Notification zoomed), (120, Notification inserted)]"
    "last (0 # map fst [(50, Notification zoomed), (120, Notification inserted)]) + 200 \<le> (320::nat)"
    by (simp_all add: trigger_def zoomed_def inserted_def FlagSet_def SC_MOD_INSERTTEXT_def)
  from C6_burst_one_scan [OF h, where indicator = 8 and QUrl = acceptAll
      and e = "oneLineEditor [] 10" and now = 0 and s = URLFinder_init and ev' = Resized]
  show ?thesis
    by simp
qed

text \<open>
  C8, in the form the code satisfies. No notification makes the handler open a text that
  is not a valid URL. A click without the Ctrl key is ignored, and so is a click with
  the Ctrl key at a position that does not carry the indicator. For a click with the
  Ctrl key at a position that carries the indicator, the handler reads the text of the
  indicator's range there; if the text is a valid URL it logs the click and asks the
  platform to open the URL, and otherwise it logs the URL's error string and opens
  nothing.
\<close>

theorem C8_ctrl_click_opens_only_valid:
  "(OpenUrl u \<in> set (notify indicator QUrl e pscn) \<longrightarrow> isValid (QUrl u))
   \<and> (code pscn = IndicatorClick \<and> \<not> FlagSet (modifiers pscn) SCMOD_CTRL
      \<longrightarrow> notify indicator QUrl e pscn = [])
   \<and> (code pscn = IndicatorClick \<and> FlagSet (modifiers pscn) SCMOD_CTRL
        \<and> indicatorAllOnFor e (position pscn) AND push_bit indicator 1 = 0
      \<longrightarrow> notify indicator QUrl e pscn = [])
   \<and> (code pscn = IndicatorClick \<and> FlagSet (modifiers pscn) SCMOD_CTRL
        \<and> indicatorAllOnFor e (position pscn) AND push_bit indicator 1 \<noteq> 0
      \<longrightarrow> notify indicator QUrl e pscn =
           (let urlText = get_text_range e (indicatorStart e indicator (position pscn))
                        (indicatorEnd e indicator (position pscn))
            in if isValid (QUrl urlText) then [LogInfo urlText, OpenUrl urlText]
               else [LogWarning (errorString (QUrl urlText))]))"
  by (auto simp: notify_def Let_def)

theorem C8_ctrl_click_opens_only_valid_witness:
  "notify 8 acceptAll linkEditor (click 2) = [LogInfo ''http://a.io'', OpenUrl ''http://a.io'']
   \<and> notify 8 rejectAll linkEditor (click 2) = [LogWarning ''Invalid URL'']
   \<and> notify 8 acceptAll linkEditor (click 0) = []
   \<and> notify 8 acceptAll linkEditor ((click 2)\<lparr>position := 20\<rparr>) = []"
proof -
  have h: "code (click 2) = IndicatorClick \<and> FlagSet (modifiers (click 2)) SCMOD_CTRL
        \<and> indicatorAllOnFor linkEditor (position (click 2)) AND push_bit 8 1 \<noteq> 0"
    by (simp add: click_def FlagSet_def SCMOD_CTRL_def linkEditor_def oneLineEditor_def)
  have h0: "code (click 0) = IndicatorClick \<and> \<not> FlagSet (modifiers (click 0)) SCMOD_CTRL"
    by (simp add: click_def FlagSet_def SCMOD_CTRL_def)
  have h20: "code ((click 2)\<lparr>position := 20\<rparr>) = IndicatorClick
        \<and> FlagSet (modifiers ((click 2)\<lparr>position := 20\<rparr>)) SCMOD_CTRL
        \<and> indicatorAllOnFor linkEditor (position ((click 2)\<lparr>position := 20\<rparr>)) AND push_bit 8 1 = 0"
    by (simp add: click_def FlagSet_def SCMOD_CTRL_def linkEditor_def oneLineEditor_def)
  have t: "get_text_range linkEditor (indicatorStart linkEditor 8 (position (click 2)))
                        (indicatorEnd linkEditor 8 (position (click 2))) = ''http://a.io''"
    by (simp add: get_text_range_def linkEditor_def oneLineEditor_def)
  from C8_ctrl_click_opens_only_valid [of "''http://a.io''" 8 acceptAll linkEditor "click 2"]
    C8_ctrl_click_opens_only_valid [of "''http://a.io''" 8 rejectAll linkEditor "click 2"]
    C8_ctrl_click_opens_only_valid [of "''http://a.io''" 8 acceptAll linkEditor "click 0"]
    C8_ctrl_click_opens_only_valid [of "''http://a.io''" 8 acceptAll linkEditor
      "(click 2)\<lparr>position := 20\<rparr>"]
    h h0 h20
  show ?thesis
    by (simp add: t Let_def acceptAll_def rejectAll_def)
qed

text \<open>
  C8 as stated fails for a click without the Ctrl key on a highlighted range: the handler
  does nothing, so text that is not a valid URL is not reported and text that is a
  valid URL is not opened.
\<close>

theorem C8_counterexample:
  "indicatorAllOnFor linkEditor (position (click 0)) AND push_bit 8 1 \<noteq> 0
   \<and> notify 8 rejectAll linkEditor (click 0) = []
   \<and> notify 8 acceptAll linkEditor (click 0) = []"
  by (simp add: notify_def click_def FlagSet_def SCMOD_CTRL_def linkEditor_def oneLineEditor_def)

subsection \<open>Language detection\<close>

lemma detectLanguageFromContents_take64:
  "detectLanguageFromContents sniff doc =
     (if contents doc = [] then ''Text'' else sniff (take 64 (contents doc)))"
  by (simp add: detectLanguageFromContents_def min_def)

text \<open>
  C7. A document with a file is resolved by its extension first, and by its contents only
  when the extension resolves to "Text"; a document without a file is resolved by its
  contents directly. Resolution by contents looks at no more than the first 64 bytes of
  the buffer: two documents that agree on them get the same answer.
\<close>

theorem C7_detectLanguage_order:
  "(isFile doc \<and> detectLanguageFromExtension langs (suffix doc) \<noteq> ''Text''
      \<longrightarrow> detectLanguage langs sniff doc = detectLanguageFromExtension langs (suffix doc))
   \<and> (isFile doc \<and> detectLanguageFromExtension langs (suffix doc) = ''Text''
      \<longrightarrow> detectLanguage langs sniff doc = detectLanguageFromContents sniff doc)
   \<and> (\<not> isFile doc
      \<longrightarrow> detectLanguage langs sniff doc = detectLanguageFromContents sniff doc)
   \<and> (take 64 (contents doc') = take 64 (contents doc)
      \<longrightarrow> detectLanguageFromContents sniff doc' = detectLanguageFromContents sniff doc)"
proof -
  have "contents doc' = [] \<longleftrightarrow> contents doc = []"
    if "take 64 (contents doc') = take 64 (contents doc)"
    using that by (metis take_eq_Nil zero_neq_numeral)
  then show ?thesis
    by (auto simp: detectLanguage_def detectLanguageFromContents_take64)
qed

theorem C7_detectLanguage_order_witness:
  "detectLanguage [(''Python'', Some [''py''])] (\<lambda>t. if take 2 t = ''#!'' then ''Bash'' else ''Text'')
      \<lparr>isFile = True, suffix = ''py'', contents = ''#!/bin/sh''\<rparr> = ''Python''
   \<and> detectLanguage [(''Python'', Some [''py''])] (\<lambda>t. if take 2 t = ''#!'' then ''Bash'' else ''Text'')
      \<lparr>isFile = True, suffix = ''xyz'', contents = ''#!/bin/sh''\<rparr> = ''Bash''
   \<and> detectLanguage [(''Python'', Some [''py''])] (\<lambda>t. if take 2 t = ''#!'' then ''Bash'' else ''Text'')
      \<lparr>isFile = False, suffix = ''py'', contents = ''#!/bin/sh''\<rparr> = ''Bash''
   \<and> detectLanguageFromContents (\<lambda>t. if take 2 t = ''#!'' then ''Bash'' else ''Text'')
      \<lparr>isFile = False, suffix = [], contents = replicate 64 CHR ''a'' @ ''#!''\<rparr>
     = detectLanguageFromContents (\<lambda>t. if take 2 t = ''#!'' then ''Bash'' else ''Text'')
      \<lparr>isFile = False, suffix = [], contents = replicate 64 CHR ''a''\<rparr>"
  using
    C7_detectLanguage_order [of "\<lparr>isFile = True, suffix = ''py'', contents = ''#!/bin/sh''\<rparr>"
      "[(''Python'', Some [''py''])]" "\<lambda>t. if take 2 t = ''#!'' then ''Bash'' else ''Text''"]
    C7_detectLanguage_order [of "\<lparr>isFile = True, suffix = ''xyz'', contents = ''#!/bin/sh''\<rparr>"
      "[(''Python'', Some [''py''])]" "\<lambda>t. if take 2 t = ''#!'' then ''Bash'' else ''Text''"]
    C7_detectLanguage_order [of "\<lparr>isFile = False, suffix = ''py'', contents = ''#!/bin/sh''\<rparr>"
      "[(''Python'', Some [''py''])]" "\<lambda>t. if take 2 t = ''#!'' then ''Bash'' else ''Text''"
      "\<lparr>isFile = False, suffix = [], contents = replicate 64 CHR ''a'' @ ''#!''\<rparr>"]
    C7_detectLanguage_order [of "\<lparr>isFile = False, suffix = [], contents = replicate 64 CHR ''a''\<rparr>"
      "[(''Python'', Some [''py''])]" "\<lambda>t. if take 2 t = ''#!'' then ''Bash'' else ''Text''"
      "\<lparr>isFile = False, suffix = [], contents = replicate 64 CHR ''a'' @ ''#!''\<rparr>"]
  by (simp add: detectLanguageFromContents_take64)

end
